theory Spec2Isabelle
  imports Complex_Main "HOL-Library.Word" "HOL-Library.Log_Nat"
begin

section \<open>JavaScript values\<close>

text \<open>
  A JavaScript string is a sequence of UTF-16 code units; \<open>length\<close>, \<open>substring\<close>,
  \<open>trim\<close> and the regular expression of \<open>toTicker\<close> all work on code units.
  \<open>js\<close> embeds an ASCII literal.
\<close>

type_synonym jschar = "16 word"
type_synonym jsstring = "jschar list"

definition js :: "string \<Rightarrow> jsstring" where
  "js s = map (\<lambda>c. of_nat (of_char c)) s"

text \<open>
  The values a price cell can hold: \<open>undefined\<close> (a read past the end of an array),
  \<open>null\<close>, or a Number. The Numbers are \<open>NaN\<close>, the two infinities, negative zero,
  and \<open>Num r\<close>: the Number written \<open>r\<close>, that is the IEEE 754 binary64 value nearest
  to the rational \<open>r\<close>, as a numeric literal or \<open>JSON.parse\<close> gives it (\<open>Num 0\<close> is
  positive zero).
\<close>

datatype jsval = Undefined | Null | NaN | Num rat | NegZero | PosInfinity | NegInfinity

text \<open>
  A timestamp computed by the program: whole seconds, or \<open>NaN\<close> when the date string
  does not parse (\<open>Math.floor(NaN)\<close>).
\<close>

datatype timestamp = TsNaN | Ts int

text \<open>\<open>xs[i]\<close> for an array: \<open>undefined\<close> outside \<open>0 .. length - 1\<close>.\<close>

definition js_nth :: "jsval list \<Rightarrow> int \<Rightarrow> jsval" where
  "js_nth xs i = (if 0 \<le> i \<and> i < int (length xs) then xs ! nat i else Undefined)"

subsection \<open>Binary64 arithmetic\<close>

text \<open>
  A Number as sign and magnitude: \<open>DFin s m\<close> is the finite value of magnitude \<open>m\<close>,
  negative when \<open>s\<close> holds, and \<open>DFin s 0\<close> is the zero of that sign.
\<close>

datatype double = DNaN | DInf bool | DFin bool rat

definition pow2 :: "int \<Rightarrow> rat" where
  "pow2 e = (if 0 \<le> e then 2 ^ nat e else 1 / 2 ^ nat (- e))"

text \<open>\<open>floor_log2 m\<close> is the \<open>e\<close> with \<open>2^e \<le> m < 2^(e+1)\<close>, for \<open>m > 0\<close>.\<close>

definition floor_log2 :: "rat \<Rightarrow> int" where
  "floor_log2 m =
     (case quotient_of m of
        (a, b) \<Rightarrow> (let e = bitlen a - bitlen b in if pow2 e \<le> m then e else e - 1))"

definition round_half_even :: "rat \<Rightarrow> int" where
  "round_half_even m =
     (let n = \<lfloor>m\<rfloor>; f = m - of_int n
      in if f < 1 / 2 then n else if 1 / 2 < f then n + 1 else if even n then n else n + 1)"

text \<open>
  Rounding a magnitude to binary64, to nearest with ties to even: 53 significant bits,
  the exponent not below -1022 (so the subnormal numbers are multiples of \<open>2^-1074\<close>),
  and \<open>None\<close> (infinity) when the rounded magnitude reaches \<open>2^1024\<close>: the
  largest finite magnitude is \<open>(2^53 - 1) * 2^971\<close>.
\<close>

definition to_binary64 :: "rat \<Rightarrow> rat option" where
  "to_binary64 m =
     (if m = 0 then Some 0
      else let e = max (floor_log2 m) (- 1022);
               q = e - 52;
               n = round_half_even (m / pow2 q)
        in if 971 < q \<or> (q = 971 \<and> 2 ^ 53 \<le> n) then None else Some (of_int n * pow2 q))"

definition fl :: "bool \<Rightarrow> rat \<Rightarrow> double" where
  "fl s m = (case to_binary64 m of None \<Rightarrow> DInf s | Some v \<Rightarrow> DFin s v)"

definition signed_value :: "bool \<Rightarrow> rat \<Rightarrow> rat" where
  "signed_value s m = (if s then - m else m)"

text \<open>\<open>ToNumber\<close>: \<open>undefined\<close> converts to \<open>NaN\<close>, \<open>null\<close> to 0.\<close>

fun ToNumber :: "jsval \<Rightarrow> double" where
  "ToNumber Undefined = DNaN"
| "ToNumber Null = DFin False 0"
| "ToNumber NaN = DNaN"
| "ToNumber (Num r) = fl (r < 0) \<bar>r\<bar>"
| "ToNumber NegZero = DFin True 0"
| "ToNumber PosInfinity = DInf False"
| "ToNumber NegInfinity = DInf True"

fun of_double :: "double \<Rightarrow> jsval" where
  "of_double DNaN = NaN"
| "of_double (DInf s) = (if s then NegInfinity else PosInfinity)"
| "of_double (DFin s m) = (if m = 0 then (if s then NegZero else Num 0) else Num (signed_value s m))"

text \<open>
  The operators \<open>-\<close>, \<open>*\<close> and \<open>/\<close> on Numbers: the exact result rounded to binary64,
  with the IEEE 754 rules for \<open>NaN\<close>, the infinities and the sign of a zero result.
\<close>

fun d_sub :: "double \<Rightarrow> double \<Rightarrow> double" where
  "d_sub DNaN b = DNaN"
| "d_sub a DNaN = DNaN"
| "d_sub (DInf s) (DInf t) = (if s = t then DNaN else DInf s)"
| "d_sub (DInf s) (DFin t n) = DInf s"
| "d_sub (DFin s m) (DInf t) = DInf (\<not> t)"
| "d_sub (DFin s m) (DFin t n) =
     (let d = signed_value s m - signed_value t n
      in if d = 0 then DFin (m = 0 \<and> n = 0 \<and> s \<and> \<not> t) 0 else fl (d < 0) \<bar>d\<bar>)"

fun d_mul :: "double \<Rightarrow> double \<Rightarrow> double" where
  "d_mul DNaN b = DNaN"
| "d_mul a DNaN = DNaN"
| "d_mul (DInf s) (DInf t) = DInf (s \<noteq> t)"
| "d_mul (DInf s) (DFin t n) = (if n = 0 then DNaN else DInf (s \<noteq> t))"
| "d_mul (DFin s m) (DInf t) = (if m = 0 then DNaN else DInf (s \<noteq> t))"
| "d_mul (DFin s m) (DFin t n) = fl (s \<noteq> t) (m * n)"

fun d_div :: "double \<Rightarrow> double \<Rightarrow> double" where
  "d_div DNaN b = DNaN"
| "d_div a DNaN = DNaN"
| "d_div (DInf s) (DInf t) = DNaN"
| "d_div (DInf s) (DFin t n) = DInf (s \<noteq> t)"
| "d_div (DFin s m) (DInf t) = DFin (s \<noteq> t) 0"
| "d_div (DFin s m) (DFin t n) =
     (if n = 0 then (if m = 0 then DNaN else DInf (s \<noteq> t)) else fl (s \<noteq> t) (m / n))"

text \<open>
  \<open>Math.round\<close>: the nearest integer, a tie going up; \<open>NaN\<close>, the infinities and the
  zeros are returned as they are, and a value in \<open>[-0.5, 0)\<close> gives negative zero.
\<close>

definition Math_round :: "double \<Rightarrow> double" where
  "Math_round x =
     (case x of
        DNaN \<Rightarrow> DNaN
      | DInf s \<Rightarrow> DInf s
      | DFin s m \<Rightarrow>
          (let k = \<lfloor>signed_value s m + 1 / 2\<rfloor>
           in if m = 0 \<or> k = 0 then DFin s 0 else DFin (k < 0) \<bar>of_int k\<bar>))"

section \<open>String utilities\<close>

text \<open>
  \<open>String.prototype.trim\<close> removes WhiteSpace and LineTerminator code units from both
  ends: TAB, LF, VT, FF, CR, SP, NBSP, the other Unicode space separators, LS, PS and the
  byte-order mark.
\<close>

definition isWhiteSpace :: "jschar \<Rightarrow> bool" where
  "isWhiteSpace c =
     (c \<in> {0x9, 0xA, 0xB, 0xC, 0xD, 0x20, 0xA0, 0x1680, 0x2028, 0x2029, 0x202F, 0x205F,
           0x3000, 0xFEFF}
      \<or> (0x2000 \<le> c \<and> c \<le> 0x200A))"

definition trim :: "jsstring \<Rightarrow> jsstring" where
  "trim s = rev (dropWhile isWhiteSpace (rev (dropWhile isWhiteSpace s)))"

text \<open>The character class \<open>[A-Za-z0-9]\<close>.\<close>

definition isAlnum :: "jschar \<Rightarrow> bool" where
  "isAlnum c = ((0x41 \<le> c \<and> c \<le> 0x5A) \<or> (0x61 \<le> c \<and> c \<le> 0x7A) \<or> (0x30 \<le> c \<and> c \<le> 0x39))"

text \<open>\<open>/^[A-Za-z0-9]+$/.test(s)\<close>: one or more characters, all of the class.\<close>

definition alnum_test :: "jsstring \<Rightarrow> bool" where
  "alnum_test s = (s \<noteq> [] \<and> list_all isAlnum s)"

section \<open>Stock code utilities\<close>

text \<open>\<open>toTicker\<close> (src/app.js, 159-170); \<open>None\<close> is \<open>null\<close>.\<close>

definition toTicker :: "jsstring \<Rightarrow> jsstring option" where
  "toTicker rawCode =
     (let code = trim rawCode in
      if length code < 4 then None
      else let ticker = take 4 code in
        if \<not> alnum_test ticker then None
        else Some (ticker @ js ''.T''))"

section \<open>Price series\<close>

text \<open>
  \<open>findClosestPriceWithIndex\<close> (src/app.js, 201-228). \<open>bestDiff\<close> starts at
  \<open>Infinity\<close>, which is \<open>None\<close> here. A comparison with \<open>NaN\<close> is false, so a
  \<open>NaN\<close> target never updates the best entry. Each loop runs over the indices of
  \<open>timestamps\<close>; \<open>closes[i]\<close> is read with \<open>js_nth\<close>.
\<close>

type_synonym best = "int \<times> int option"

definition lt_best :: "int \<Rightarrow> int option \<Rightarrow> bool" where
  "lt_best d b = (case b of None \<Rightarrow> True | Some x \<Rightarrow> d < x)"

definition before_step :: "int list \<Rightarrow> jsval list \<Rightarrow> timestamp \<Rightarrow> nat \<Rightarrow> best \<Rightarrow> best" where
  "before_step timestamps closes targetTs i b =
     (if js_nth closes (int i) = Null then b
      else case targetTs of
        TsNaN \<Rightarrow> b
      | Ts t \<Rightarrow>
          (let diff = t - timestamps ! i in
           if diff \<ge> 0 \<and> lt_best diff (snd b) then (int i, Some diff) else b))"

definition nearest_step :: "int list \<Rightarrow> jsval list \<Rightarrow> timestamp \<Rightarrow> nat \<Rightarrow> best \<Rightarrow> best" where
  "nearest_step timestamps closes targetTs i b =
     (if js_nth closes (int i) = Null then b
      else case targetTs of
        TsNaN \<Rightarrow> b
      | Ts t \<Rightarrow>
          (let diff = \<bar>t - timestamps ! i\<bar> in
           if lt_best diff (snd b) then (int i, Some diff) else b))"

record closest =
  closest_price :: jsval
  closest_index :: int

definition findClosestPriceWithIndex :: "int list \<Rightarrow> jsval list \<Rightarrow> timestamp \<Rightarrow> closest" where
  "findClosestPriceWithIndex timestamps closes targetTs =
     (let b1 = fold (before_step timestamps closes targetTs) [0..<length timestamps] (-1, None);
          b2 = (if fst b1 = -1
                then fold (nearest_step timestamps closes targetTs) [0..<length timestamps] b1
                else b1);
          bestIdx = fst b2
      in \<lparr>closest_price = (if bestIdx \<ge> 0 then js_nth closes bestIdx else Null),
          closest_index = bestIdx\<rparr>)"

text \<open>
  \<open>findPriceNTradingDaysBack\<close> (src/app.js, 241-249): the loop counts \<open>i\<close> down from
  \<open>baseIdx - 1\<close> to 0 and returns from inside.
\<close>

function back_loop :: "jsval list \<Rightarrow> int \<Rightarrow> int \<Rightarrow> int \<Rightarrow> jsval" where
  "back_loop closes n i count =
     (if i \<ge> 0 then
        (if js_nth closes i = Null then back_loop closes n (i - 1) count
         else if count + 1 = n then js_nth closes i
         else back_loop closes n (i - 1) (count + 1))
      else Null)"
  by pat_completeness auto
termination
  by (relation "measure (\<lambda>(closes, n, i, count). nat (i + 1))") auto

declare back_loop.simps [simp del]

definition findPriceNTradingDaysBack :: "jsval list \<Rightarrow> int \<Rightarrow> int \<Rightarrow> jsval" where
  "findPriceNTradingDaysBack closes baseIdx n = back_loop closes n (baseIdx - 1) 0"

text \<open>
  \<open>calcChangeRate\<close> (src/app.js, 254-257). \<open>pastPrice === 0\<close> holds for a Number
  that is a zero of either sign (and for a literal so small that it is read as zero),
  and for nothing else. The arithmetic is that of the source, operator by operator, on
  binary64 Numbers; an \<open>undefined\<close> operand converts to \<open>NaN\<close>.
\<close>

fun strict_zero :: "jsval \<Rightarrow> bool" where
  "strict_zero (Num r) = (to_binary64 \<bar>r\<bar> = Some 0)"
| "strict_zero NegZero = True"
| "strict_zero _ = False"

definition calcChangeRate :: "jsval \<Rightarrow> jsval \<Rightarrow> jsval" where
  "calcChangeRate currentPrice pastPrice =
     (if currentPrice = Null \<or> pastPrice = Null \<or> strict_zero pastPrice then Null
      else of_double
             (d_div
                (Math_round
                   (d_mul
                      (d_div (d_sub (ToNumber currentPrice) (ToNumber pastPrice))
                         (ToNumber pastPrice))
                      (DFin False 10000)))
                (DFin False 100)))"

text \<open>
  The contract of section 4.3 in the spec's words: the non-null closes before the base
  index, nearest first, and the \<open>n\<close>-th of them, or \<open>null\<close> when there are fewer.
\<close>

definition prior_closes :: "jsval list \<Rightarrow> int \<Rightarrow> jsval list" where
  "prior_closes closes baseIdx = filter (\<lambda>c. c \<noteq> Null) (rev (take (nat baseIdx) closes))"

definition nth_trading_day_back :: "jsval list \<Rightarrow> int \<Rightarrow> int \<Rightarrow> jsval" where
  "nth_trading_day_back closes baseIdx n =
     (let prior = prior_closes closes baseIdx
      in if nat n \<le> length prior then prior ! (nat n - 1) else Null)"

text \<open>
  The entries the selection ranges over: index \<open>j\<close> of the series has a close that is
  not \<open>null\<close>; and it lies on or before the target.
\<close>

definition has_close :: "int list \<Rightarrow> jsval list \<Rightarrow> nat \<Rightarrow> bool" where
  "has_close timestamps closes j = (j < length timestamps \<and> js_nth closes (int j) \<noteq> Null)"

definition on_or_before :: "int list \<Rightarrow> jsval list \<Rightarrow> int \<Rightarrow> nat \<Rightarrow> bool" where
  "on_or_before timestamps closes t j = (has_close timestamps closes j \<and> timestamps ! j \<le> t)"

section \<open>Identifier resolver\<close>

text \<open>
  A row is the list of its cells. \<open>getUniqueStocks\<close> (src/app.js, 175-192) keeps a
  \<open>Map\<close> from trimmed code to StockRef; a \<open>Map\<close> iterates in insertion order, so it is
  an association list here, and \<open>Array.from(seen.values())\<close> is \<open>map snd\<close>.
  \<open>row[dateColIdx] || ''\<close> is \<open>cell_or_empty\<close>.
\<close>

type_synonym row = "jsstring list"

record StockRef =
  stock_ticker :: "jsstring option"
  stock_date :: jsstring
  stock_rawCode :: jsstring

definition map_has :: "('k \<times> 'v) list \<Rightarrow> 'k \<Rightarrow> bool" where
  "map_has m k = (k \<in> fst ` set m)"

definition map_set :: "('k \<times> 'v) list \<Rightarrow> 'k \<Rightarrow> 'v \<Rightarrow> ('k \<times> 'v) list" where
  "map_set m k v =
     (if map_has m k then map (\<lambda>(k', v'). if k' = k then (k', v) else (k', v')) m
      else m @ [(k, v)])"

definition cell_or_empty :: "row \<Rightarrow> nat \<Rightarrow> jsstring" where
  "cell_or_empty row i = (if i < length row then row ! i else [])"

definition getUniqueStocks_step ::
  "nat \<Rightarrow> nat \<Rightarrow> (jsstring \<times> StockRef) list \<Rightarrow> row \<Rightarrow> (jsstring \<times> StockRef) list" where
  "getUniqueStocks_step codeColIdx dateColIdx seen row =
     (if length row \<le> codeColIdx then seen
      else let rawCode = row ! codeColIdx;
               code = trim rawCode
        in if code = [] \<or> map_has seen code then seen
           else let ticker = toTicker rawCode;
                    date = cell_or_empty row dateColIdx
             in map_set seen code
                  \<lparr>stock_ticker = ticker, stock_date = date, stock_rawCode = code\<rparr>)"

definition getUniqueStocks :: "row list \<Rightarrow> nat \<Rightarrow> nat \<Rightarrow> StockRef list" where
  "getUniqueStocks rows codeColIdx dateColIdx =
     map snd (foldl (getUniqueStocks_step codeColIdx dateColIdx) [] rows)"

text \<open>
  The words of the contract: the identifier a row carries (its trimmed code cell, when the
  row has one and it is not blank), the rows where an identifier occurs for the first
  time, and the StockRef built from such a row.
\<close>

definition identifier_of :: "nat \<Rightarrow> row \<Rightarrow> jsstring option" where
  "identifier_of codeColIdx row =
     (if codeColIdx < length row \<and> trim (row ! codeColIdx) \<noteq> [] then Some (trim (row ! codeColIdx))
      else None)"

definition first_occurrence :: "nat \<Rightarrow> row list \<Rightarrow> nat \<Rightarrow> bool" where
  "first_occurrence codeColIdx rows k =
     (k < length rows \<and> identifier_of codeColIdx (rows ! k) \<noteq> None
      \<and> (\<forall>k' < k. identifier_of codeColIdx (rows ! k') \<noteq> identifier_of codeColIdx (rows ! k)))"

definition stock_of :: "nat \<Rightarrow> nat \<Rightarrow> row \<Rightarrow> StockRef" where
  "stock_of codeColIdx dateColIdx row =
     \<lparr>stock_ticker = toTicker (row ! codeColIdx), stock_date = cell_or_empty row dateColIdx,
      stock_rawCode = trim (row ! codeColIdx)\<rparr>"

text \<open>The rows of the deduplication example, and one row whose code cell is blank.\<close>

definition dedup_rows :: "row list" where
  "dedup_rows =
     [[js ''2024/01/01'', [], [], [], js ''100''],
      [js ''2024/01/02'', [], [], [], js ''100''],
      [js ''2024/02/01'', [], [], [], js ''200'']]"

definition blank_rows :: "row list" where
  "blank_rows = [[js ''2024/01/01'', [], [], [], js '' '']]"

section \<open>Price lookup\<close>

text \<open>
  The exceptions the \<open>try\<close> block of \<open>fetchClosingPrice\<close> can raise:
  \<open>encodeURIComponent\<close> on a ticker with a lone surrogate, a rejected \<open>fetch\<close>, a
  rejected \<open>response.json()\<close> (empty or malformed body), and a property read on
  \<open>null\<close>. The two rejections carry the message the browser gives them.
\<close>

datatype exn = URIError | FetchRejected jsstring | JsonRejected jsstring | TypeError

text \<open>
  The \<open>error\<close> field of a result. The first five constructors stand for the five
  string literals of the source, in the order of their return statements (the second is
  \<open>`HTTP ${response.status}`\<close>); \<open>Caught e\<close> is \<open>err.message\<close> of the handler.
\<close>

datatype lookup_error =
  InvalidTicker | HttpStatus int | NoData | NoChartData | NoValidClose | Caught exn

record EnrichedResult =
  price :: jsval
  dividend :: jsval
  actualDate :: "jsstring option"
  change1d :: jsval
  change7d :: jsval
  change14d :: jsval
  change30d :: jsval
  error :: "lookup_error option"

definition nullResult :: EnrichedResult where
  "nullResult =
     \<lparr>price = Null, dividend = Null, actualDate = None, change1d = Null, change7d = Null,
      change14d = Null, change30d = Null, error = None\<rparr>"

text \<open>
  The request: the variable parts of the URL
  \<open>{base}/{ticker}?period1={startTs}&period2={endTs}&interval=1d&events=div\<close>.
\<close>

record request =
  req_ticker :: jsstring
  period1 :: timestamp
  period2 :: timestamp

text \<open>
  The response, in the shape the code consumes (spec, section 6), with the \<open>null\<close> or
  absent value each access guards against. A dividend entry is the pair of
  \<open>parseInt(ts)\<close> and the entry's \<open>amount\<close>, or \<open>None\<close> for an entry that is
  \<open>null\<close>; the list is in the order of \<open>Object.entries\<close>.
\<close>

record chart_result =
  res_timestamp :: "int list option"
  res_close :: "jsval list option"
  res_dividends :: "(timestamp \<times> jsval option) list option"

datatype chart = NoChart | NoResult | Results "chart_result option list"

datatype response_data = DataNull | Data chart

datatype response_body = Malformed jsstring | Parsed response_data

datatype fetch_outcome = Rejected jsstring | Response int response_body

text \<open>
  What the browser provides: \<open>dateToTs s\<close> is
  \<open>Math.floor(new Date(s).getTime() / 1000)\<close>, \<open>fetch\<close> answers a request,
  \<open>formatDate ts\<close> is the local date of \<open>new Date(ts * 1000)\<close> as \<open>YYYY/MM/DD\<close>.
\<close>

record env =
  dateToTs :: "jsstring \<Rightarrow> timestamp"
  fetch :: "request \<Rightarrow> fetch_outcome"
  formatDate :: "int \<Rightarrow> jsstring"

definition ts_minus :: "timestamp \<Rightarrow> int \<Rightarrow> timestamp" where
  "ts_minus a d = (case a of TsNaN \<Rightarrow> TsNaN | Ts t \<Rightarrow> Ts (t - d))"

definition ts_plus :: "timestamp \<Rightarrow> int \<Rightarrow> timestamp" where
  "ts_plus a d = (case a of TsNaN \<Rightarrow> TsNaN | Ts t \<Rightarrow> Ts (t + d))"

text \<open>\<open>targetDateStr.replace(/\//g, '-')\<close>.\<close>

definition replace_slashes :: "jsstring \<Rightarrow> jsstring" where
  "replace_slashes s = map (\<lambda>c. if c = 0x2F then 0x2D else c) s"

text \<open>\<open>encodeURIComponent\<close> throws \<open>URIError\<close> exactly on a lone surrogate.\<close>

fun lone_surrogate :: "jsstring \<Rightarrow> bool" where
  "lone_surrogate [] = False"
| "lone_surrogate [c] = (0xD800 \<le> c \<and> c \<le> 0xDFFF)"
| "lone_surrogate (c # d # cs) =
     (if 0xDC00 \<le> c \<and> c \<le> 0xDFFF then True
      else if 0xD800 \<le> c \<and> c \<le> 0xDBFF
        then (if 0xDC00 \<le> d \<and> d \<le> 0xDFFF then lone_surrogate cs else True)
      else lone_surrogate (d # cs))"

text \<open>\<open>response.ok\<close>.\<close>

definition ok :: "int \<Rightarrow> bool" where
  "ok status = (200 \<le> status \<and> status \<le> 299)"

text \<open>\<open>Math.round(v * k) / k\<close> for a cell \<open>v\<close>.\<close>

definition round_to :: "rat \<Rightarrow> jsval \<Rightarrow> jsval" where
  "round_to k v = of_double (d_div (Math_round (d_mul (ToNumber v) (DFin False k))) (DFin False k))"

text \<open>
  The dividend loop: \<open>closestDivDiff\<close> starts at \<open>Infinity\<close>; \<open>divData.amount\<close> is
  read only when the entry is closer, and throws when the entry is \<open>null\<close>.
\<close>

fun dividend_loop ::
  "timestamp \<Rightarrow> (timestamp \<times> jsval option) list \<Rightarrow> int option \<Rightarrow> jsval \<Rightarrow> exn + jsval" where
  "dividend_loop targetTs [] closestDivDiff dividendAmount = Inr dividendAmount"
| "dividend_loop targetTs ((divTs, divData) # rest) closestDivDiff dividendAmount =
     (case (targetTs, divTs) of
        (Ts t, Ts d) \<Rightarrow>
          (let diff = \<bar>t - d\<bar> in
           if lt_best diff closestDivDiff
           then (case divData of
                   None \<Rightarrow> Inl TypeError
                 | Some amount \<Rightarrow> dividend_loop targetTs rest (Some diff) amount)
           else dividend_loop targetTs rest closestDivDiff dividendAmount)
      | _ \<Rightarrow> dividend_loop targetTs rest closestDivDiff dividendAmount)"

definition closest_dividend ::
  "timestamp \<Rightarrow> (timestamp \<times> jsval option) list option \<Rightarrow> exn + jsval" where
  "closest_dividend targetTs dividends =
     (case dividends of
        None \<Rightarrow> Inr Null
      | Some entries \<Rightarrow> dividend_loop targetTs entries None Null)"

text \<open>
  The part of the \<open>try\<close> block after \<open>response.json()\<close> (src/app.js, 289-348).
\<close>

definition process_result :: "env \<Rightarrow> timestamp \<Rightarrow> chart_result \<Rightarrow> exn + EnrichedResult" where
  "process_result e targetTs result =
     (let timestamps = (case res_timestamp result of None \<Rightarrow> [] | Some ts \<Rightarrow> ts);
          closes = (case res_close result of None \<Rightarrow> [] | Some cs \<Rightarrow> cs)
      in if timestamps = [] \<or> closes = [] then Inr (nullResult\<lparr>error := Some NoChartData\<rparr>)
         else
           let found = findClosestPriceWithIndex timestamps closes targetTs;
               currentPrice = closest_price found;
               baseIdx = closest_index found
           in if currentPrice = Null \<or> baseIdx = -1
              then Inr (nullResult\<lparr>error := Some NoValidClose\<rparr>)
              else
                let formattedDate = formatDate e (timestamps ! nat baseIdx);
                    price1d = findPriceNTradingDaysBack closes baseIdx 1;
                    price7d = findPriceNTradingDaysBack closes baseIdx 5;
                    price14d = findPriceNTradingDaysBack closes baseIdx 10;
                    price30d = findPriceNTradingDaysBack closes baseIdx 21
                in case closest_dividend targetTs (res_dividends result) of
                     Inl x \<Rightarrow> Inl x
                   | Inr dividendAmount \<Rightarrow>
                       Inr \<lparr>price = round_to 10 currentPrice,
                            dividend = (if dividendAmount \<noteq> Null then round_to 100 dividendAmount
                                        else Null),
                            actualDate = Some formattedDate,
                            change1d = calcChangeRate currentPrice price1d,
                            change7d = calcChangeRate currentPrice price7d,
                            change14d = calcChangeRate currentPrice price14d,
                            change30d = calcChangeRate currentPrice price30d,
                            error = None\<rparr>)"

definition process_data :: "env \<Rightarrow> timestamp \<Rightarrow> response_data \<Rightarrow> exn + EnrichedResult" where
  "process_data e targetTs data =
     (case data of
        DataNull \<Rightarrow> Inl TypeError
      | Data NoChart \<Rightarrow> Inr (nullResult\<lparr>error := Some NoData\<rparr>)
      | Data NoResult \<Rightarrow> Inr (nullResult\<lparr>error := Some NoData\<rparr>)
      | Data (Results []) \<Rightarrow> Inr (nullResult\<lparr>error := Some NoData\<rparr>)
      | Data (Results (None # _)) \<Rightarrow> Inl TypeError
      | Data (Results (Some result # _)) \<Rightarrow> process_result e targetTs result)"

text \<open>
  The \<open>try\<close> block (src/app.js, 266-348): the requests it sends and what it returns or
  throws.
\<close>

definition price_request :: "jsstring \<Rightarrow> timestamp \<Rightarrow> request" where
  "price_request ticker targetTs =
     (let startTs = ts_minus targetTs (45 * 86400);
          endTs = ts_plus targetTs (14 * 86400)
      in \<lparr>req_ticker = ticker, period1 = startTs, period2 = endTs\<rparr>)"

definition try_block :: "env \<Rightarrow> jsstring \<Rightarrow> jsstring \<Rightarrow> request list \<times> (exn + EnrichedResult)" where
  "try_block e ticker targetDateStr =
     (let targetTs = dateToTs e (replace_slashes targetDateStr)
      in if lone_surrogate ticker then ([], Inl URIError)
         else
           let req = price_request ticker targetTs
           in case fetch e req of
                Rejected message \<Rightarrow> ([req], Inl (FetchRejected message))
              | Response status body \<Rightarrow>
                  if \<not> ok status then ([req], Inr (nullResult\<lparr>error := Some (HttpStatus status)\<rparr>))
                  else (case body of
                          Malformed message \<Rightarrow> ([req], Inl (JsonRejected message))
                        | Parsed data \<Rightarrow> ([req], process_data e targetTs data)))"

text \<open>
  \<open>fetchClosingPrice\<close> (src/app.js, 262-352). The ticker is \<open>null\<close> (\<open>None\<close>) or a
  string; \<open>!ticker\<close> holds for \<open>null\<close> and for the empty string. The handler turns
  every exception of the \<open>try\<close> block into a result, so the function always returns
  one; the first component lists the requests it sent.
\<close>

definition fetchClosingPrice ::
  "env \<Rightarrow> jsstring option \<Rightarrow> jsstring \<Rightarrow> request list \<times> EnrichedResult" where
  "fetchClosingPrice e ticker targetDateStr =
     (case ticker of
        None \<Rightarrow> ([], nullResult\<lparr>error := Some InvalidTicker\<rparr>)
      | Some t \<Rightarrow>
          if t = [] then ([], nullResult\<lparr>error := Some InvalidTicker\<rparr>)
          else (case try_block e t targetDateStr of
                  (reqs, Inl err) \<Rightarrow> (reqs, nullResult\<lparr>error := Some (Caught err)\<rparr>)
                | (reqs, Inr result) \<Rightarrow> (reqs, result)))"

text \<open>
  The two shapes of a result, and the success path in terms of the response: a truthy,
  encodable ticker, a target date that parses, a 2xx status, a body that parses to a
  chart whose first result has non-empty timestamp and close arrays with at least one
  non-null close among the entries, and no \<open>null\<close> dividend entry read by the
  dividend loop.
\<close>

definition failure_shape :: "EnrichedResult \<Rightarrow> bool" where
  "failure_shape r =
     (error r \<noteq> None \<and> price r = Null \<and> dividend r = Null \<and> actualDate r = None
      \<and> change1d r = Null \<and> change7d r = Null \<and> change14d r = Null \<and> change30d r = Null)"

definition success_shape :: "EnrichedResult \<Rightarrow> bool" where
  "success_shape r = (error r = None \<and> price r \<noteq> Null \<and> actualDate r \<noteq> None)"

definition result_ok :: "timestamp \<Rightarrow> chart_result \<Rightarrow> bool" where
  "result_ok targetTs result =
     (case (res_timestamp result, res_close result) of
        (Some timestamps, Some closes) \<Rightarrow>
          timestamps \<noteq> [] \<and> closes \<noteq> [] \<and> targetTs \<noteq> TsNaN
          \<and> (\<exists>j < length timestamps. has_close timestamps closes j)
          \<and> closest_dividend targetTs (res_dividends result) \<noteq> Inl TypeError
      | _ \<Rightarrow> False)"

definition success_path :: "env \<Rightarrow> jsstring option \<Rightarrow> jsstring \<Rightarrow> bool" where
  "success_path e ticker targetDateStr =
     (case ticker of
        None \<Rightarrow> False
      | Some t \<Rightarrow>
          t \<noteq> [] \<and> \<not> lone_surrogate t
          \<and> (let targetTs = dateToTs e (replace_slashes targetDateStr)
             in case fetch e (price_request t targetTs) of
                  Response status (Parsed (Data (Results (Some result # rest)))) \<Rightarrow>
                    ok status \<and> result_ok targetTs result
                | _ \<Rightarrow> False))"

text \<open>
  The earlier revision of the same function (src/unnamed/part_000, 208-213) asks for 14
  days on either side of the target.
\<close>

definition price_request_part_000 :: "jsstring \<Rightarrow> timestamp \<Rightarrow> request" where
  "price_request_part_000 ticker targetTs =
     (let startTs = ts_minus targetTs (14 * 86400);
          endTs = ts_plus targetTs (14 * 86400)
      in \<lparr>req_ticker = ticker, period1 = startTs, period2 = endTs\<rparr>)"

text \<open>A browser whose upstream answers every request with one priced day, and one whose
  upstream answers 404.\<close>

definition sample_result :: chart_result where
  "sample_result =
     \<lparr>res_timestamp = Some [1699920000], res_close = Some [Num 2750], res_dividends = None\<rparr>"

definition sample_env :: env where
  "sample_env =
     \<lparr>dateToTs = (\<lambda>s. Ts 1699920000),
      fetch = (\<lambda>req. Response 200 (Parsed (Data (Results [Some sample_result])))),
      formatDate = (\<lambda>t. js ''2023/11/14'')\<rparr>"


section \<open>Batch processing\<close>

text \<open>
  \<open>closingPrices\<close> is a plain object \<open>{}\<close> used as a dictionary. Its own enumerable
  properties are an association list. An assignment \<open>obj[key] = value\<close> creates or
  updates an own property, except for the key \<open>__proto__\<close>: that assignment goes to the
  accessor inherited from \<open>Object.prototype\<close>, which replaces the prototype of
  \<open>obj\<close> by the assigned object and creates no own property. \<open>Object.values\<close> lists
  the values of the own properties; only their number is used, so the order in which it
  lists integer-like keys is not modelled.
\<close>

type_synonym 'v jsobject = "(jsstring \<times> 'v) list"

definition obj_assign :: "'v jsobject \<Rightarrow> jsstring \<Rightarrow> 'v \<Rightarrow> 'v jsobject" where
  "obj_assign obj key v = (if key = js ''__proto__'' then obj else map_set obj key v)"

definition Object_values :: "'v jsobject \<Rightarrow> 'v list" where
  "Object_values obj = map snd obj"

text \<open>
  \<open>if (result.error)\<close>: a string is truthy unless it is empty. The literals of the
  source and the messages of the engine's own \<open>URIError\<close> and \<open>TypeError\<close> are not
  empty; the message of a rejection is whatever the browser supplies.
\<close>

fun error_truthy :: "lookup_error option \<Rightarrow> bool" where
  "error_truthy None = False"
| "error_truthy (Some (Caught (FetchRejected message))) = (message \<noteq> [])"
| "error_truthy (Some (Caught (JsonRejected message))) = (message \<noteq> [])"
| "error_truthy (Some _) = True"

record ErrorRecord =
  err_code :: jsstring
  err_ticker :: jsstring
  err_error :: "lookup_error option"

text \<open>
  What a run does, in order: a batch is dispatched, a request is sent, progress is
  reported (completed, total), the run sleeps for some milliseconds.
\<close>

datatype event = Dispatch "StockRef list" | Request request | Progress nat nat | Sleep nat

record run_state =
  closingPrices :: "EnrichedResult jsobject"
  errorMessages :: "ErrorRecord list"
  completed :: nat
  trace :: "event list"

definition BATCH_SIZE :: nat where
  "BATCH_SIZE = 5"

definition BATCH_DELAY_MS :: nat where
  "BATCH_DELAY_MS = 1500"

text \<open>
  The callback of \<open>batch.map\<close> (src/app.js, 376-390) for one stock. The lookups of a
  batch run concurrently and may complete in any order; here they complete in the order
  of the batch. \<open>stock.ticker || 'N/A'\<close> is the ticker unless it is \<open>null\<close> or empty.
\<close>

definition lookup_stock :: "env \<Rightarrow> nat \<Rightarrow> run_state \<Rightarrow> StockRef \<Rightarrow> run_state" where
  "lookup_stock e tot st stock =
     (let (reqs, result) = fetchClosingPrice e (stock_ticker stock) (stock_date stock);
          st1 = st\<lparr>closingPrices := obj_assign (closingPrices st) (stock_rawCode stock) result\<rparr>;
          st2 = (if error_truthy (error result)
                 then st1\<lparr>errorMessages := errorMessages st1 @
                        [\<lparr>err_code = stock_rawCode stock,
                          err_ticker = (case stock_ticker stock of
                                          None \<Rightarrow> js ''N/A''
                                        | Some t \<Rightarrow> if t = [] then js ''N/A'' else t),
                          err_error = error result\<rparr>]\<rparr>
                 else st1)
      in st2\<lparr>completed := completed st2 + 1,
             trace := trace st2 @ map Request reqs @ [Progress (completed st2 + 1) tot]\<rparr>)"

text \<open>
  The loop \<open>for (let i = 0; i < total; i += BATCH_SIZE)\<close> (src/app.js, 373-398).
\<close>

function batch_loop :: "env \<Rightarrow> StockRef list \<Rightarrow> nat \<Rightarrow> run_state \<Rightarrow> run_state" where
  "batch_loop e stocks i st =
     (let tot = length stocks
      in if i < tot then
           (let batch = take BATCH_SIZE (drop i stocks);
                st1 = st\<lparr>trace := trace st @ [Dispatch batch]\<rparr>;
                st2 = foldl (lookup_stock e tot) st1 batch;
                st3 = (if i + BATCH_SIZE < tot
                       then st2\<lparr>trace := trace st2 @ [Sleep BATCH_DELAY_MS]\<rparr>
                       else st2)
            in batch_loop e stocks (i + BATCH_SIZE) st3)
         else st)"
  by pat_completeness auto
termination
  by (relation "measure (\<lambda>(e, stocks, i, st). length stocks - i)") (auto simp: BATCH_SIZE_def)

declare batch_loop.simps [simp del]

text \<open>
  \<open>fetchAllPrices\<close> (src/app.js, 358-409), without the DOM updates: the results and
  errors are reset, the batches run, and the final progress is reported.
\<close>

definition fetchAllPrices :: "env \<Rightarrow> StockRef list \<Rightarrow> run_state" where
  "fetchAllPrices e stocks =
     (let tot = length stocks;
          st0 = \<lparr>closingPrices = [], errorMessages = [], completed = 0,
                 trace = [Progress 0 tot]\<rparr>;
          st1 = batch_loop e stocks 0 st0
      in st1\<lparr>trace := trace st1 @ [Progress tot tot]\<rparr>)"

text \<open>The three counts of \<open>showResults\<close> (src/app.js, 440-447).\<close>

record counts =
  successN :: nat
  errorN :: nat
  naCount :: nat

definition showResults :: "run_state \<Rightarrow> counts" where
  "showResults st =
     \<lparr>successN = length (filter (\<lambda>v. price v \<noteq> Null) (Object_values (closingPrices st))),
      errorN = length (errorMessages st),
      naCount = length (filter (\<lambda>v. price v = Null) (Object_values (closingPrices st)))\<rparr>"

text \<open>
  The pacing of a run in the words of the contract: the batches of at most five stocks
  starting at index \<open>i\<close>, and the events of dispatching them with a wait between
  consecutive batches and none after the last.
\<close>

function batches_from :: "nat \<Rightarrow> StockRef list \<Rightarrow> StockRef list list" where
  "batches_from i stocks =
     (if i < length stocks then take 5 (drop i stocks) # batches_from (i + 5) stocks else [])"
  by pat_completeness auto
termination
  by (relation "measure (\<lambda>(i, stocks). length stocks - i)") auto

declare batches_from.simps [simp del]

fun paced :: "StockRef list list \<Rightarrow> event list" where
  "paced [] = []"
| "paced [b] = [Dispatch b]"
| "paced (b # c # bs) = Dispatch b # Sleep 1500 # paced (c # bs)"

fun is_pacing :: "event \<Rightarrow> bool" where
  "is_pacing (Dispatch b) = True"
| "is_pacing (Sleep ms) = True"
| "is_pacing _ = False"

fun is_sleep :: "event \<Rightarrow> bool" where
  "is_sleep (Sleep ms) = True"
| "is_sleep _ = False"

text \<open>Twelve stocks, and the one stock of a sheet whose code cell reads \<open>__proto__\<close>.\<close>

definition twelve_stocks :: "StockRef list" where
  "twelve_stocks =
     map (\<lambda>c. \<lparr>stock_ticker = None, stock_date = js ''2024/01/01'', stock_rawCode = [c]\<rparr>)
       [0x41, 0x42, 0x43, 0x44, 0x45, 0x46, 0x47, 0x48, 0x49, 0x4A, 0x4B, 0x4C]"

definition proto_rows :: "row list" where
  "proto_rows = [[js ''2024/01/01'', [], [], [], js ''__proto__'']]"

text \<open>The batches a trace dispatches, in order.\<close>

fun dispatched :: "event list \<Rightarrow> StockRef list list" where
  "dispatched [] = []"
| "dispatched (Dispatch b # evs) = b # dispatched evs"
| "dispatched (ev # evs) = dispatched evs"

text \<open>
  For the counts of a run: every rejection the browser reports carries a non-empty
  message; and the number of stored results whose price is \<open>null\<close>.
\<close>

definition truthy_messages :: "env \<Rightarrow> bool" where
  "truthy_messages e =
     (\<forall>req. case fetch e req of
              Rejected message \<Rightarrow> message \<noteq> []
            | Response status (Malformed message) \<Rightarrow> message \<noteq> []
            | _ \<Rightarrow> True)"

definition na_of :: "run_state \<Rightarrow> nat" where
  "na_of st = length (filter (\<lambda>v. price v = Null) (Object_values (closingPrices st)))"

section \<open>CSV parsing and export\<close>

text \<open>
  \<open>parseCSVRows\<close> (src/app.js, 62-108). The loop over the characters of the text is a
  recursion over the rest of the text; the look-ahead \<open>text[i + 1]\<close> is the head of the
  rest, and \<open>i++\<close> inside the loop skips it. The result of the loop is the rows
  finished so far, the current row and the current field. The code units are
  \<open>"\<close> (0x22), \<open>,\<close> (0x2C), CR (0xD) and LF (0xA).
\<close>

fun parse_loop ::
  "jsstring \<Rightarrow> bool \<Rightarrow> jsstring \<Rightarrow> row \<Rightarrow> row list \<Rightarrow> row list \<times> row \<times> jsstring" where
  "parse_loop [] inQuote currentField currentRow rows = (rows, currentRow, currentField)"
| "parse_loop (ch # rest) inQuote currentField currentRow rows =
     (if inQuote then
        (if ch = 0x22 then
           (case rest of
              [] \<Rightarrow> parse_loop rest False currentField currentRow rows
            | nxt # rest' \<Rightarrow>
                if nxt = 0x22 then parse_loop rest' True (currentField @ [0x22]) currentRow rows
                else parse_loop rest False currentField currentRow rows)
         else parse_loop rest True (currentField @ [ch]) currentRow rows)
      else
        (if ch = 0x22 then parse_loop rest True currentField currentRow rows
         else if ch = 0x2C then parse_loop rest False [] (currentRow @ [currentField]) rows
         else if ch = 0xD then parse_loop rest False currentField currentRow rows
         else if ch = 0xA then parse_loop rest False [] [] (rows @ [currentRow @ [currentField]])
         else parse_loop rest False (currentField @ [ch]) currentRow rows))"

definition parseCSVRows :: "jsstring \<Rightarrow> row list" where
  "parseCSVRows text =
     (case parse_loop text False [] [] [] of
        (rows, currentRow, currentField) \<Rightarrow>
          filter (\<lambda>row. list_ex (\<lambda>f. trim f \<noteq> []) row)
            (if currentField \<noteq> [] \<or> currentRow \<noteq> []
             then rows @ [currentRow @ [currentField]] else rows))"

text \<open>\<open>Array.prototype.join\<close> on strings.\<close>

fun js_join :: "jsstring \<Rightarrow> jsstring list \<Rightarrow> jsstring" where
  "js_join sep [] = []"
| "js_join sep [x] = x"
| "js_join sep (x # y # xs) = x @ sep @ js_join sep (y # xs)"

text \<open>
  The callback of \<open>row.slice(0, 9).map\<close> (src/app.js, 665-672):
  \<open>val.replace(/"/g, '""')\<close> doubles every quote.
\<close>

definition double_quotes :: "jsstring \<Rightarrow> jsstring" where
  "double_quotes val = concat (map (\<lambda>ch. if ch = 0x22 then [0x22, 0x22] else [ch]) val)"

definition needs_quotes :: "jsstring \<Rightarrow> bool" where
  "needs_quotes val = (0x2C \<in> set val \<or> 0x22 \<in> set val \<or> 0xA \<in> set val)"

definition quote_wrap :: "jsstring \<Rightarrow> jsstring" where
  "quote_wrap val = (if needs_quotes val then [0x22] @ double_quotes val @ [0x22] else val)"

definition export_cell :: "jsstring \<Rightarrow> jsstring" where
  "export_cell c = (let val = trim c in quote_wrap val)"

text \<open>
  The seven appended cells (src/app.js, 674-701). \<open>priceData\<close> is what the property
  read \<open>closingPrices[code]\<close> gives: \<open>None\<close> for \<open>undefined\<close>, else an object whose
  fields may themselves be \<open>undefined\<close>. \<open>String(x)\<close> and \<open>x.toFixed(2)\<close> belong to
  the engine and are parameters. \<open>price > 0\<close> is false for \<open>undefined\<close> and \<open>NaN\<close>;
  the yield is \<open>dividend / price * 100\<close> in binary64.
\<close>

record formatters =
  numToString :: "jsval \<Rightarrow> jsstring"
  toFixed2 :: "jsval \<Rightarrow> jsstring"

definition js_positive :: "jsval \<Rightarrow> bool" where
  "js_positive v =
     (case ToNumber v of DFin s m \<Rightarrow> \<not> s \<and> 0 < m | DInf s \<Rightarrow> \<not> s | DNaN \<Rightarrow> False)"

definition yield_pct :: "jsval \<Rightarrow> jsval \<Rightarrow> jsval" where
  "yield_pct dividendV priceV =
     of_double (d_mul (d_div (ToNumber dividendV) (ToNumber priceV)) (DFin False 100))"

definition change_cell :: "formatters \<Rightarrow> EnrichedResult option \<Rightarrow> (EnrichedResult \<Rightarrow> jsval) \<Rightarrow> jsstring" where
  "change_cell fmt priceData key =
     (let val = (case priceData of None \<Rightarrow> Undefined | Some r \<Rightarrow> key r)
      in if val \<noteq> Null \<and> val \<noteq> Undefined then toFixed2 fmt val else js ''N/A'')"

definition derived_cells :: "formatters \<Rightarrow> EnrichedResult option \<Rightarrow> jsstring list" where
  "derived_cells fmt priceData =
     [case priceData of
        Some r \<Rightarrow> if price r \<noteq> Null then numToString fmt (price r) else js ''N/A''
      | None \<Rightarrow> js ''N/A'',
      case priceData of
        Some r \<Rightarrow> if dividend r \<noteq> Null then numToString fmt (dividend r) else js ''N/A''
      | None \<Rightarrow> js ''N/A'',
      case priceData of
        Some r \<Rightarrow>
          if price r \<noteq> Null \<and> dividend r \<noteq> Null \<and> js_positive (price r)
          then toFixed2 fmt (yield_pct (dividend r) (price r)) else js ''N/A''
      | None \<Rightarrow> js ''N/A'',
      change_cell fmt priceData change1d,
      change_cell fmt priceData change7d,
      change_cell fmt priceData change14d,
      change_cell fmt priceData change30d]"

text \<open>
  One exported line, and \<open>generateOutputCSV\<close> (src/app.js, 643-707): the metadata
  lines, the header line, one line per data row, joined by CR LF. The header labels are
  the sixteen Japanese column titles of the source.
\<close>

definition output_cells ::
  "formatters \<Rightarrow> (jsstring \<Rightarrow> EnrichedResult option) \<Rightarrow> row \<Rightarrow> jsstring list" where
  "output_cells fmt closingPricesAt row =
     (let cells = map export_cell (take 9 row);
          code = trim (cell_or_empty row 4);
          priceData = closingPricesAt code
      in cells @ derived_cells fmt priceData)"

definition output_line ::
  "formatters \<Rightarrow> (jsstring \<Rightarrow> EnrichedResult option) \<Rightarrow> row \<Rightarrow> jsstring" where
  "output_line fmt closingPricesAt row = js_join [0x2C] (output_cells fmt closingPricesAt row)"

definition headerLabels :: "jsstring list" where
  "headerLabels =
     [[0x57FA, 0x6E96, 0x65E5],
      [0x28, 0x5B9F, 0x8CEA, 0x4E0A, 0x29, 0x57FA, 0x6E96, 0x65E5],
      [0x6A29, 0x5229, 0x843D, 0x65E5, 0x28, 0x666E, 0x901A, 0x53D6, 0x5F15, 0x29],
      [0x6A29, 0x5229, 0x843D, 0x65E5, 0x28, 0x305D, 0x306E, 0x4ED6, 0x306E, 0x53D6, 0x5F15, 0x29],
      [0x9298, 0x67C4, 0x30B3, 0x30FC, 0x30C9],
      [0x9298, 0x67C4, 0x7565, 0x79F0],
      [0x5E02, 0x5834],
      [0x5099, 0x8003],
      [0x66F4, 0x65B0, 0x30D5, 0x30E9, 0x30B0],
      [0x7D42, 0x5024],
      [0x914D, 0x5F53, 0x91D1],
      [0x914D, 0x5F53, 0x5229, 0x56DE, 0x308A, 0x28, 0x25, 0x29],
      [0x524D, 0x65E5, 0x6BD4, 0x28, 0x25, 0x29],
      [0x31, 0x9031, 0x9593, 0x524D, 0x6BD4, 0x28, 0x25, 0x29],
      [0x32, 0x9031, 0x9593, 0x524D, 0x6BD4, 0x28, 0x25, 0x29],
      [0x31, 0x30F6, 0x6708, 0x524D, 0x6BD4, 0x28, 0x25, 0x29]]"

record parsedData =
  pd_metadata :: "jsstring list"
  pd_header :: row
  pd_rows :: "row list"

definition generateOutputCSV ::
  "formatters \<Rightarrow> (jsstring \<Rightarrow> EnrichedResult option) \<Rightarrow> parsedData option \<Rightarrow> jsstring" where
  "generateOutputCSV fmt closingPricesAt parsed =
     (case parsed of
        None \<Rightarrow> []
      | Some pd \<Rightarrow>
          js_join [0xD, 0xA]
            (pd_metadata pd @ [js_join [0x2C] headerLabels]
             @ map (output_line fmt closingPricesAt) (pd_rows pd)))"

text \<open>
  The delimited data rows of an export, and the cells a row is expected to come back
  with: the trimmed first nine cells and the seven appended ones. A formatter is plain
  when its output is never blank and holds no quote, comma, CR or LF. A cell has a bare
  CR when it holds a CR and nothing that makes the export quote it.
\<close>

definition output_data :: "formatters \<Rightarrow> (jsstring \<Rightarrow> EnrichedResult option) \<Rightarrow> row list \<Rightarrow> jsstring" where
  "output_data fmt closingPricesAt rows =
     js_join [0xD, 0xA] (map (output_line fmt closingPricesAt) rows)"

definition expected_cells ::
  "formatters \<Rightarrow> (jsstring \<Rightarrow> EnrichedResult option) \<Rightarrow> row \<Rightarrow> jsstring list" where
  "expected_cells fmt closingPricesAt row =
     map trim (take 9 row) @ derived_cells fmt (closingPricesAt (trim (cell_or_empty row 4)))"

definition plain :: "jsstring \<Rightarrow> bool" where
  "plain s = (0x22 \<notin> set s \<and> 0x2C \<notin> set s \<and> 0xD \<notin> set s \<and> 0xA \<notin> set s)"

definition plain_formatters :: "formatters \<Rightarrow> bool" where
  "plain_formatters fmt =
     (\<forall>v. plain (numToString fmt v) \<and> trim (numToString fmt v) \<noteq> []
          \<and> plain (toFixed2 fmt v) \<and> trim (toFixed2 fmt v) \<noteq> [])"

definition bare_cr :: "jsstring \<Rightarrow> bool" where
  "bare_cr val = (0xD \<in> set val \<and> \<not> needs_quotes val)"

text \<open>
  For examples: formatters that print every number as \<open>0\<close>, the result map before any
  lookup, a row like the one in the comment of \<open>toTicker\<close> (its code cell reads
  \<open>"82270 "\<close>), and a row with a cell holding a bare CR.
\<close>

definition zero_formatters :: formatters where
  "zero_formatters = \<lparr>numToString = (\<lambda>v. js ''0''), toFixed2 = (\<lambda>v. js ''0.00'')\<rparr>"

definition no_prices :: "jsstring \<Rightarrow> EnrichedResult option" where
  "no_prices code = None"

definition padded_rows :: "row list" where
  "padded_rows =
     [[js ''2026/02/20'', js ''2026/02/20'', js ''2026/02/19'', [], js ''82270 '', js ''A, B'',
       js ''T'', [], js ''1'']]"

definition cr_rows :: "row list" where
  "cr_rows =
     [[js ''2026/02/20'', js ''2026/02/20'', js ''2026/02/19'', [], js ''82270'', [0x41, 0xD, 0x42],
       js ''T'', [], js ''1'']]"

section \<open>Verified properties\<close>

subsection \<open>Change rate\<close>

lemma fl_zero: "fl s 0 = DFin s 0"
  by (simp add: fl_def to_binary64_def)

lemma Math_round_cases:
  "Math_round x = DNaN \<or> (\<exists>s. Math_round x = DInf s) \<or> (\<exists>s. Math_round x = DFin s 0)
   \<or> (\<exists>k::int. k \<noteq> 0 \<and> Math_round x = DFin (k < 0) \<bar>of_int k\<bar>)"
  by (cases x) (auto simp: Math_round_def Let_def)

lemma hundredths:
  assumes "of_double (d_div (Math_round x) (DFin False 100)) = Num r"
  shows "\<exists>k::int. Num r = of_double (fl (k < 0) (\<bar>of_int k\<bar> / 100))"
proof -
  from Math_round_cases [of x] consider
      "Math_round x = DNaN"
    | s where "Math_round x = DInf s"
    | s where "Math_round x = DFin s 0"
    | k :: int where "k \<noteq> 0" "Math_round x = DFin (k < 0) \<bar>of_int k\<bar>"
    by blast
  then show ?thesis
  proof cases
    case 1
    then show ?thesis using assms by simp
  next
    case 2
    then show ?thesis using assms by (simp split: if_splits)
  next
    case 3
    then have "Num r = Num 0" using assms by (simp add: fl_zero split: if_splits)
    then have "Num r = of_double (fl ((0::int) < 0) (\<bar>of_int 0\<bar> / 100))"
      by (simp add: fl_zero)
    then show ?thesis by blast
  next
    case 4
    then have "Num r = of_double (fl (k < 0) (\<bar>of_int k\<bar> / 100))"
      using assms by simp
    then show ?thesis by blast
  qed
qed

lemma calcChangeRate_nan:
  assumes "c \<noteq> Null" "p \<noteq> Null" "\<not> strict_zero p" "c \<in> {Undefined, NaN} \<or> p \<in> {Undefined, NaN}"
  shows "calcChangeRate c p = NaN"
proof -
  have "ToNumber c = DNaN \<or> ToNumber p = DNaN" using assms(4) by auto
  then have "d_div (d_sub (ToNumber c) (ToNumber p)) (ToNumber p) = DNaN"
    by (cases "ToNumber c"; cases "ToNumber p") auto
  then show ?thesis using assms(1,2,3) by (simp add: calcChangeRate_def Math_round_def)
qed

text \<open>
  Claim C3. \<open>calcChangeRate\<close> returns \<open>null\<close> when the current value is
  \<open>null\<close>, the past value is \<open>null\<close> or the past value is zero. Otherwise it returns
  \<open>Math.round((current - past) / past * 10000) / 100\<close>, every operator being the
  binary64 one: when the result is a finite Number it is the Number nearest to a whole
  number of hundredths, and an \<open>undefined\<close> or \<open>NaN\<close> operand gives \<open>NaN\<close>.
  \<open>calcChangeRate(110, 100) = 10\<close>, \<open>calcChangeRate(x, 0) = null\<close> for every \<open>x\<close>,
  \<open>calcChangeRate(null, 100) = null\<close>.
\<close>

theorem calcChangeRate_formula:
  "(c = Null \<or> p = Null \<or> strict_zero p \<longrightarrow> calcChangeRate c p = Null)
   \<and> (c \<noteq> Null \<and> p \<noteq> Null \<and> \<not> strict_zero p \<longrightarrow>
        calcChangeRate c p =
          of_double
            (d_div
               (Math_round
                  (d_mul (d_div (d_sub (ToNumber c) (ToNumber p)) (ToNumber p)) (DFin False 10000)))
               (DFin False 100)))
   \<and> (\<forall>r. calcChangeRate c p = Num r \<longrightarrow>
          (\<exists>k::int. Num r = of_double (fl (k < 0) (\<bar>of_int k\<bar> / 100))))
   \<and> (c \<noteq> Null \<and> p \<noteq> Null \<and> \<not> strict_zero p \<and> (c \<in> {Undefined, NaN} \<or> p \<in> {Undefined, NaN})
        \<longrightarrow> calcChangeRate c p = NaN)
   \<and> calcChangeRate (Num 110) (Num 100) = Num 10
   \<and> calcChangeRate x (Num 0) = Null
   \<and> calcChangeRate x NegZero = Null
   \<and> calcChangeRate Null (Num 100) = Null"
proof (intro conjI allI impI)
  assume "c = Null \<or> p = Null \<or> strict_zero p"
  then show "calcChangeRate c p = Null" by (auto simp: calcChangeRate_def)
next
  assume "c \<noteq> Null \<and> p \<noteq> Null \<and> \<not> strict_zero p"
  then show "calcChangeRate c p =
          of_double
            (d_div
               (Math_round
                  (d_mul (d_div (d_sub (ToNumber c) (ToNumber p)) (ToNumber p)) (DFin False 10000)))
               (DFin False 100))"
    by (simp add: calcChangeRate_def)
next
  fix r assume "calcChangeRate c p = Num r"
  then show "\<exists>k::int. Num r = of_double (fl (k < 0) (\<bar>of_int k\<bar> / 100))"
    by (auto simp: calcChangeRate_def split: if_splits intro: hundredths)
next
  assume "c \<noteq> Null \<and> p \<noteq> Null \<and> \<not> strict_zero p \<and> (c \<in> {Undefined, NaN} \<or> p \<in> {Undefined, NaN})"
  then show "calcChangeRate c p = NaN" by (intro calcChangeRate_nan) simp_all
next
  show "calcChangeRate (Num 110) (Num 100) = Num 10"
    by code_simp
next
  show "calcChangeRate x (Num 0) = Null" by (simp add: calcChangeRate_def to_binary64_def)
next
  show "calcChangeRate x NegZero = Null" by (simp add: calcChangeRate_def)
next
  show "calcChangeRate Null (Num 100) = Null" by (simp add: calcChangeRate_def)
qed

theorem calcChangeRate_formula_witness:
  "calcChangeRate (Num 1) Null = Null
   \<and> \<not> strict_zero (Num 3)
   \<and> calcChangeRate Undefined (Num 3) = NaN
   \<and> calcChangeRate (Num 105) (Num 100) = Num 5"
proof -
  have nz: "\<not> strict_zero (Num 3)" "\<not> strict_zero (Num 100)"
    by code_simp+
  have ev: "of_double
            (d_div
               (Math_round
                  (d_mul (d_div (d_sub (ToNumber (Num 105)) (ToNumber (Num 100))) (ToNumber (Num 100)))
                     (DFin False 10000)))
               (DFin False 100)) = Num 5"
    by code_simp
  have "calcChangeRate (Num 1) Null = Null"
    using calcChangeRate_formula [of "Num 1" Null] by simp
  moreover have "calcChangeRate Undefined (Num 3) = NaN"
  proof -
    from calcChangeRate_formula [of Undefined "Num 3"]
    have "Undefined \<noteq> Null \<and> Num 3 \<noteq> Null \<and> \<not> strict_zero (Num 3)
        \<and> (Undefined \<in> {Undefined, NaN} \<or> Num 3 \<in> {Undefined, NaN})
        \<longrightarrow> calcChangeRate Undefined (Num 3) = NaN"
      by blast
    then show ?thesis using nz(1) by simp
  qed
  moreover have "calcChangeRate (Num 105) (Num 100) = Num 5"
  proof -
    from calcChangeRate_formula [of "Num 105" "Num 100"]
    have "Num 105 \<noteq> Null \<and> Num 100 \<noteq> Null \<and> \<not> strict_zero (Num 100) \<longrightarrow>
        calcChangeRate (Num 105) (Num 100) =
          of_double
            (d_div
               (Math_round
                  (d_mul (d_div (d_sub (ToNumber (Num 105)) (ToNumber (Num 100))) (ToNumber (Num 100)))
                     (DFin False 10000)))
               (DFin False 100))"
      by blast
    then show ?thesis using nz(2) ev by (simp del: ToNumber.simps)
  qed
  ultimately show ?thesis using nz by simp
qed

text \<open>
  The rounding is that of the Numbers, not of the exact quotient: from 1600 to 1586 the
  scaled change is \<open>-87.50000000000001\<close> and the rate \<open>-0.88\<close>, from 20000 to 20003 it is
  \<open>1.4999999999999998\<close> and the rate \<open>0.01\<close>, and from 200 to 200.01 it is just below
  one half and the rate 0.
\<close>

lemma calcChangeRate_binary64_examples:
  "calcChangeRate (Num 1586) (Num 1600) = of_double (ToNumber (Num (- 88 / 100)))
   \<and> calcChangeRate (Num 20003) (Num 20000) = of_double (ToNumber (Num (1 / 100)))
   \<and> calcChangeRate (Num (20001 / 100)) (Num 200) = Num 0"
  by code_simp

subsection \<open>Ticker derivation\<close>

text \<open>
  Claim C4. \<open>toTicker\<close> trims the raw identifier; it returns \<open>null\<close> when the
  trimmed text has fewer than 4 code units or when one of its first 4 code units is
  outside \<open>[A-Za-z0-9]\<close>; otherwise it returns those 4 code units followed by the
  suffix \<open>.T\<close>. \<open>toTicker("82270 ")\<close> is \<open>"8227.T"\<close> and \<open>toTicker("AB1")\<close> is
  \<open>null\<close>.
\<close>

theorem toTicker_derivation:
  "(length (trim rawCode) < 4 \<longrightarrow> toTicker rawCode = None)
   \<and> (4 \<le> length (trim rawCode) \<and> (\<exists>c \<in> set (take 4 (trim rawCode)). \<not> isAlnum c)
        \<longrightarrow> toTicker rawCode = None)
   \<and> (4 \<le> length (trim rawCode) \<and> (\<forall>c \<in> set (take 4 (trim rawCode)). isAlnum c)
        \<longrightarrow> toTicker rawCode = Some (take 4 (trim rawCode) @ js ''.T''))
   \<and> toTicker (js ''82270 '') = Some (js ''8227.T'')
   \<and> toTicker (js ''AB1'') = None"
proof (intro conjI impI)
  show "toTicker (js ''82270 '') = Some (js ''8227.T'')"
    by (simp add: toTicker_def trim_def js_def isWhiteSpace_def alnum_test_def isAlnum_def)
  show "toTicker (js ''AB1'') = None"
    by (simp add: toTicker_def trim_def js_def isWhiteSpace_def)
qed (auto simp: toTicker_def alnum_test_def Let_def list_all_iff)

theorem toTicker_derivation_witness:
  "toTicker (js '' 7203'') = Some (js ''7203.T'') \<and> toTicker (js ''12-45'') = None \<and> toTicker (js '' 9 '') = None"
  using toTicker_derivation [of "js '' 7203''"] toTicker_derivation [of "js ''12-45''"]
    toTicker_derivation [of "js '' 9 ''"]
  by (simp add: trim_def js_def isWhiteSpace_def isAlnum_def)

subsection \<open>Trading days back\<close>

lemma prior_closes_step:
  assumes "0 \<le> i" "i < int (length closes)"
  shows "prior_closes closes (i + 1) =
    (if js_nth closes i = Null then prior_closes closes i else js_nth closes i # prior_closes closes i)"
proof -
  have "nat (i + 1) = Suc (nat i)" using assms by simp
  moreover have "nat i < length closes" using assms by simp
  ultimately show ?thesis
    using assms by (simp add: prior_closes_def take_Suc_conv_app_nth js_nth_def)
qed

lemma prior_closes_start: "i < 0 \<Longrightarrow> prior_closes closes (i + 1) = []"
  by (simp add: prior_closes_def)

lemma back_loop_prior:
  "i < int (length closes) \<Longrightarrow> count < n \<Longrightarrow>
   back_loop closes n i count =
     (let prior = prior_closes closes (i + 1)
      in if nat (n - count) \<le> length prior then prior ! (nat (n - count) - 1) else Null)"
proof (induction closes n i count rule: back_loop.induct)
  case (1 closes n i count)
  show ?case
  proof (cases "0 \<le> i")
    case False
    then show ?thesis using "1.prems" by (subst back_loop.simps) (simp add: prior_closes_start)
  next
    case True
    note step = prior_closes_step [OF True "1.prems"(1)]
    show ?thesis
    proof (cases "js_nth closes i = Null")
      case isnull: True
      have "back_loop closes n i count = back_loop closes n (i - 1) count"
        using True isnull by (subst back_loop.simps) simp
      also have "\<dots> = (let prior = prior_closes closes (i - 1 + 1)
          in if nat (n - count) \<le> length prior then prior ! (nat (n - count) - 1) else Null)"
        using "1.IH"(1) [OF True isnull] "1.prems" by simp
      finally show ?thesis using step isnull by simp
    next
      case nonnull: False
      show ?thesis
      proof (cases "count + 1 = n")
        case True
        then have "nat (n - count) = 1" by simp
        then show ?thesis using \<open>0 \<le> i\<close> nonnull True step by (subst back_loop.simps) simp
      next
        case False
        have "back_loop closes n i count = back_loop closes n (i - 1) (count + 1)"
          using \<open>0 \<le> i\<close> nonnull False by (subst back_loop.simps) simp
        also have "\<dots> = (let prior = prior_closes closes (i - 1 + 1)
          in if nat (n - (count + 1)) \<le> length prior then prior ! (nat (n - (count + 1)) - 1) else Null)"
          using "1.IH"(2) [OF \<open>0 \<le> i\<close> nonnull False] "1.prems" False by simp
        finally have e: "back_loop closes n i count = (let prior = prior_closes closes i
          in if nat (n - (count + 1)) \<le> length prior then prior ! (nat (n - (count + 1)) - 1) else Null)"
          by simp
        have k: "nat (n - count) = Suc (nat (n - (count + 1)))" "0 < nat (n - (count + 1))"
          using "1.prems" False by auto
        show ?thesis unfolding e using step nonnull k by (auto simp: Let_def)
      qed
    qed
  qed
qed

text \<open>
  Claim C2. For every close sequence, every base index that is a position of the
  sequence (or its length, or negative) and every \<open>n \<ge> 1\<close>,
  \<open>findPriceNTradingDaysBack\<close> returns the \<open>n\<close>-th non-null close met walking
  backward from just before the base index, and \<open>null\<close> when fewer than \<open>n\<close>
  non-null closes precede the base index. For \<open>[10, null, 20, 30]\<close> and base index 3,
  one trading day back is 20 and two trading days back is 10.
\<close>

theorem findPriceNTradingDaysBack_nth:
  "(baseIdx \<le> int (length closes) \<and> 1 \<le> n \<longrightarrow>
      findPriceNTradingDaysBack closes baseIdx n = nth_trading_day_back closes baseIdx n)
   \<and> findPriceNTradingDaysBack [Num 10, Null, Num 20, Num 30] 3 1 = Num 20
   \<and> findPriceNTradingDaysBack [Num 10, Null, Num 20, Num 30] 3 2 = Num 10"
proof (intro conjI impI)
  assume "baseIdx \<le> int (length closes) \<and> 1 \<le> n"
  then show "findPriceNTradingDaysBack closes baseIdx n = nth_trading_day_back closes baseIdx n"
    using back_loop_prior [of "baseIdx - 1" closes 0 n]
    by (simp add: findPriceNTradingDaysBack_def nth_trading_day_back_def Let_def)
next
  show "findPriceNTradingDaysBack [Num 10, Null, Num 20, Num 30] 3 1 = Num 20"
    by (simp add: findPriceNTradingDaysBack_def js_nth_def back_loop.simps)
  show "findPriceNTradingDaysBack [Num 10, Null, Num 20, Num 30] 3 2 = Num 10"
    by (simp add: findPriceNTradingDaysBack_def js_nth_def back_loop.simps)
qed

theorem findPriceNTradingDaysBack_nth_witness:
  "(3::int) \<le> int (length [Num 10, Null, Num 20, Num 30]) \<and> (1::int) \<le> 3
   \<and> findPriceNTradingDaysBack [Num 10, Null, Num 20, Num 30] 3 3 = Null
   \<and> nth_trading_day_back [Num 10, Null, Num 20, Num 30] 3 3 = Null"
  using findPriceNTradingDaysBack_nth [of 3 "[Num 10, Null, Num 20, Num 30]" 3]
  by (simp add: nth_trading_day_back_def prior_closes_def)

text \<open>
  Beyond the end of the array \<open>closes[i]\<close> is \<open>undefined\<close>, which is not
  \<open>null\<close>, so a base index past the length of the sequence counts the missing entries.
\<close>

lemma findPriceNTradingDaysBack_beyond_end:
  "findPriceNTradingDaysBack [Num 10] 2 1 = Undefined"
  by (simp add: findPriceNTradingDaysBack_def js_nth_def back_loop.simps)

subsection \<open>Closest-date selection\<close>

lemma before_loop_inv:
  "n \<le> length ts \<Longrightarrow>
   (fold (before_step ts cs (Ts t)) [0..<n] (-1, None) = (-1, None)
      \<and> (\<forall>j<n. \<not> on_or_before ts cs t j))
   \<or> (\<exists>i<n. fold (before_step ts cs (Ts t)) [0..<n] (-1, None) = (int i, Some (t - ts ! i))
         \<and> on_or_before ts cs t i
         \<and> (\<forall>j<n. on_or_before ts cs t j \<longrightarrow> t - ts ! i \<le> t - ts ! j)
         \<and> (\<forall>j<i. on_or_before ts cs t j \<longrightarrow> t - ts ! i < t - ts ! j))"
proof (induction n)
  case 0
  then show ?case by simp
next
  case (Suc n)
  let ?b = "fold (before_step ts cs (Ts t)) [0..<n] (-1, None)"
  have n: "n < length ts" using Suc.prems by simp
  have step: "fold (before_step ts cs (Ts t)) [0..<Suc n] (-1, None) = before_step ts cs (Ts t) n ?b"
    by simp
  have oob: "on_or_before ts cs t n \<longleftrightarrow> js_nth cs (int n) \<noteq> Null \<and> ts ! n \<le> t"
    using n by (simp add: on_or_before_def has_close_def)
  from Suc.IH n consider
    (none) "?b = (-1, None)" "\<forall>j<n. \<not> on_or_before ts cs t j"
    | (some) i where "i < n" "?b = (int i, Some (t - ts ! i))" "on_or_before ts cs t i"
      "\<forall>j<n. on_or_before ts cs t j \<longrightarrow> t - ts ! i \<le> t - ts ! j"
      "\<forall>j<i. on_or_before ts cs t j \<longrightarrow> t - ts ! i < t - ts ! j"
    by auto
  then show ?case
  proof cases
    case none
    show ?thesis
    proof (cases "on_or_before ts cs t n")
      case True
      then have "before_step ts cs (Ts t) n ?b = (int n, Some (t - ts ! n))"
        using none(1) oob by (simp add: before_step_def lt_best_def)
      then show ?thesis using True none(2) unfolding step
        by (intro disjI2 exI [of _ n]) (auto simp: less_Suc_eq)
    next
      case False
      then have "before_step ts cs (Ts t) n ?b = (-1, None)"
        using none(1) oob by (auto simp: before_step_def lt_best_def)
      then show ?thesis using False none(2) unfolding step
        by (intro disjI1) (auto simp: less_Suc_eq)
    qed
  next
    case some
    show ?thesis
    proof (cases "on_or_before ts cs t n \<and> t - ts ! n < t - ts ! i")
      case True
      then have "before_step ts cs (Ts t) n ?b = (int n, Some (t - ts ! n))"
        using some(2) oob by (simp add: before_step_def lt_best_def)
      moreover have "\<forall>j<Suc n. on_or_before ts cs t j \<longrightarrow> t - ts ! n \<le> t - ts ! j"
        using True some(4) by (fastforce simp: less_Suc_eq)
      moreover have "\<forall>j<n. on_or_before ts cs t j \<longrightarrow> t - ts ! n < t - ts ! j"
        using True some(4) by fastforce
      ultimately show ?thesis using True unfolding step
        by (intro disjI2 exI [of _ n]) simp
    next
      case False
      then have "before_step ts cs (Ts t) n ?b = (int i, Some (t - ts ! i))"
        using some(2) oob by (auto simp: before_step_def lt_best_def)
      moreover have "\<forall>j<Suc n. on_or_before ts cs t j \<longrightarrow> t - ts ! i \<le> t - ts ! j"
        using False some(4) by (fastforce simp: less_Suc_eq)
      ultimately show ?thesis using some(1,3,5) unfolding step
        by (intro disjI2 exI [of _ i]) simp
    qed
  qed
qed

lemma nearest_loop_inv:
  "n \<le> length ts \<Longrightarrow>
   (fold (nearest_step ts cs (Ts t)) [0..<n] (-1, None) = (-1, None)
      \<and> (\<forall>j<n. \<not> has_close ts cs j))
   \<or> (\<exists>i<n. fold (nearest_step ts cs (Ts t)) [0..<n] (-1, None) = (int i, Some \<bar>t - ts ! i\<bar>)
         \<and> has_close ts cs i
         \<and> (\<forall>j<n. has_close ts cs j \<longrightarrow> \<bar>t - ts ! i\<bar> \<le> \<bar>t - ts ! j\<bar>)
         \<and> (\<forall>j<i. has_close ts cs j \<longrightarrow> \<bar>t - ts ! i\<bar> < \<bar>t - ts ! j\<bar>))"
proof (induction n)
  case 0
  then show ?case by simp
next
  case (Suc n)
  let ?b = "fold (nearest_step ts cs (Ts t)) [0..<n] (-1, None)"
  have n: "n < length ts" using Suc.prems by simp
  have step: "fold (nearest_step ts cs (Ts t)) [0..<Suc n] (-1, None) = nearest_step ts cs (Ts t) n ?b"
    by simp
  have hc: "has_close ts cs n \<longleftrightarrow> js_nth cs (int n) \<noteq> Null"
    using n by (simp add: has_close_def)
  from Suc.IH n consider
    (none) "?b = (-1, None)" "\<forall>j<n. \<not> has_close ts cs j"
    | (some) i where "i < n" "?b = (int i, Some \<bar>t - ts ! i\<bar>)" "has_close ts cs i"
      "\<forall>j<n. has_close ts cs j \<longrightarrow> \<bar>t - ts ! i\<bar> \<le> \<bar>t - ts ! j\<bar>"
      "\<forall>j<i. has_close ts cs j \<longrightarrow> \<bar>t - ts ! i\<bar> < \<bar>t - ts ! j\<bar>"
    by auto
  then show ?case
  proof cases
    case none
    show ?thesis
    proof (cases "has_close ts cs n")
      case True
      then have "nearest_step ts cs (Ts t) n ?b = (int n, Some \<bar>t - ts ! n\<bar>)"
        using none(1) hc by (simp add: nearest_step_def lt_best_def)
      then show ?thesis using True none(2) unfolding step
        by (intro disjI2 exI [of _ n]) (auto simp: less_Suc_eq)
    next
      case False
      then have "nearest_step ts cs (Ts t) n ?b = (-1, None)"
        using none(1) hc by (auto simp: nearest_step_def lt_best_def)
      then show ?thesis using False none(2) unfolding step
        by (intro disjI1) (auto simp: less_Suc_eq)
    qed
  next
    case some
    show ?thesis
    proof (cases "has_close ts cs n \<and> \<bar>t - ts ! n\<bar> < \<bar>t - ts ! i\<bar>")
      case True
      then have "nearest_step ts cs (Ts t) n ?b = (int n, Some \<bar>t - ts ! n\<bar>)"
        using some(2) hc by (simp add: nearest_step_def lt_best_def)
      moreover have "\<forall>j<Suc n. has_close ts cs j \<longrightarrow> \<bar>t - ts ! n\<bar> \<le> \<bar>t - ts ! j\<bar>"
        using True some(4) by (fastforce simp: less_Suc_eq)
      moreover have "\<forall>j<n. has_close ts cs j \<longrightarrow> \<bar>t - ts ! n\<bar> < \<bar>t - ts ! j\<bar>"
        using True some(4) by fastforce
      ultimately show ?thesis using True unfolding step
        by (intro disjI2 exI [of _ n]) simp
    next
      case False
      then have "nearest_step ts cs (Ts t) n ?b = (int i, Some \<bar>t - ts ! i\<bar>)"
        using some(2) hc by (auto simp: nearest_step_def lt_best_def)
      moreover have "\<forall>j<Suc n. has_close ts cs j \<longrightarrow> \<bar>t - ts ! i\<bar> \<le> \<bar>t - ts ! j\<bar>"
        using False some(4) by (fastforce simp: less_Suc_eq)
      ultimately show ?thesis using some(1,3,5) unfolding step
        by (intro disjI2 exI [of _ i]) simp
    qed
  qed
qed

lemma closest_before:
  assumes "\<exists>j. on_or_before ts cs t j"
  shows "\<exists>i. findClosestPriceWithIndex ts cs (Ts t) = \<lparr>closest_price = js_nth cs (int i), closest_index = int i\<rparr>
           \<and> on_or_before ts cs t i
           \<and> (\<forall>j. on_or_before ts cs t j \<longrightarrow> t - ts ! i \<le> t - ts ! j)
           \<and> (\<forall>j<i. on_or_before ts cs t j \<longrightarrow> t - ts ! i < t - ts ! j)"
proof -
  have bound: "\<And>j. on_or_before ts cs t j \<Longrightarrow> j < length ts"
    by (simp add: on_or_before_def has_close_def)
  from before_loop_inv [of "length ts" ts cs t] assms bound obtain i where
    i: "i < length ts" "fold (before_step ts cs (Ts t)) [0..<length ts] (-1, None) = (int i, Some (t - ts ! i))"
      "on_or_before ts cs t i"
      "\<forall>j<length ts. on_or_before ts cs t j \<longrightarrow> t - ts ! i \<le> t - ts ! j"
      "\<forall>j<i. on_or_before ts cs t j \<longrightarrow> t - ts ! i < t - ts ! j"
    by auto
  have "findClosestPriceWithIndex ts cs (Ts t) = \<lparr>closest_price = js_nth cs (int i), closest_index = int i\<rparr>"
    using i(2) by (simp add: findClosestPriceWithIndex_def Let_def)
  then show ?thesis using i(3,4,5) bound by blast
qed

lemma closest_fallback:
  assumes "\<not> (\<exists>j. on_or_before ts cs t j)" "\<exists>j. has_close ts cs j"
  shows "\<exists>i. findClosestPriceWithIndex ts cs (Ts t) = \<lparr>closest_price = js_nth cs (int i), closest_index = int i\<rparr>
           \<and> has_close ts cs i
           \<and> (\<forall>j. has_close ts cs j \<longrightarrow> \<bar>t - ts ! i\<bar> \<le> \<bar>t - ts ! j\<bar>)
           \<and> (\<forall>j<i. has_close ts cs j \<longrightarrow> \<bar>t - ts ! i\<bar> < \<bar>t - ts ! j\<bar>)"
proof -
  have bound: "\<And>j. has_close ts cs j \<Longrightarrow> j < length ts"
    by (simp add: has_close_def)
  have b1: "fold (before_step ts cs (Ts t)) [0..<length ts] (-1, None) = (-1, None)"
    using before_loop_inv [of "length ts" ts cs t] assms(1) by auto
  from nearest_loop_inv [of "length ts" ts cs t] assms(2) bound obtain i where
    i: "i < length ts" "fold (nearest_step ts cs (Ts t)) [0..<length ts] (-1, None) = (int i, Some \<bar>t - ts ! i\<bar>)"
      "has_close ts cs i"
      "\<forall>j<length ts. has_close ts cs j \<longrightarrow> \<bar>t - ts ! i\<bar> \<le> \<bar>t - ts ! j\<bar>"
      "\<forall>j<i. has_close ts cs j \<longrightarrow> \<bar>t - ts ! i\<bar> < \<bar>t - ts ! j\<bar>"
    by auto
  have "findClosestPriceWithIndex ts cs (Ts t) = \<lparr>closest_price = js_nth cs (int i), closest_index = int i\<rparr>"
    using b1 i(2) by (simp add: findClosestPriceWithIndex_def Let_def)
  then show ?thesis using i(3,4,5) bound by blast
qed

lemma closest_none:
  assumes "\<not> (\<exists>j. has_close ts cs j)"
  shows "findClosestPriceWithIndex ts cs (Ts t) = \<lparr>closest_price = Null, closest_index = -1\<rparr>"
proof -
  have nb: "\<not> (\<exists>j. on_or_before ts cs t j)" using assms by (simp add: on_or_before_def)
  have b1: "fold (before_step ts cs (Ts t)) [0..<length ts] (-1, None) = (-1, None)"
    using before_loop_inv [of "length ts" ts cs t] nb by auto
  have b2: "fold (nearest_step ts cs (Ts t)) [0..<length ts] (-1, None) = (-1, None)"
    using nearest_loop_inv [of "length ts" ts cs t] assms by auto
  show ?thesis using b1 b2 by (simp add: findClosestPriceWithIndex_def Let_def)
qed

lemma closest_example:
  "a \<noteq> Null \<Longrightarrow> findClosestPriceWithIndex [t - 2 * 86400, t + 86400] [a, b] (Ts t)
     = \<lparr>closest_price = a, closest_index = 0\<rparr>"
  by (simp add: findClosestPriceWithIndex_def before_step_def lt_best_def js_nth_def Let_def)

text \<open>
  Claim C1. For every series and every target timestamp \<open>t\<close>: if some entry with a
  non-null close lies on or before \<open>t\<close>, the lookup selects such an entry with the
  smallest difference \<open>t - ts\<close> (the first one in the series when several tie) and
  returns its close and index; if none does but some entry has a non-null close, it
  selects the entry with the smallest absolute difference (again the first on a tie);
  if no entry has a non-null close, the index is -1 and the price \<open>null\<close>. With
  timestamps \<open>[t - 2d, t + 1d]\<close>, both closes non-null, it selects \<open>t - 2d\<close>. The
  inline loops of the earlier revision of \<open>fetchClosingPrice\<close> (src/unnamed/part_000,
  237-264) are the same two loops.
\<close>

theorem closest_date_selection:
  "((\<exists>j. on_or_before timestamps closes t j) \<longrightarrow>
      (\<exists>i. findClosestPriceWithIndex timestamps closes (Ts t)
              = \<lparr>closest_price = js_nth closes (int i), closest_index = int i\<rparr>
          \<and> on_or_before timestamps closes t i
          \<and> (\<forall>j. on_or_before timestamps closes t j \<longrightarrow> t - timestamps ! i \<le> t - timestamps ! j)
          \<and> (\<forall>j<i. on_or_before timestamps closes t j \<longrightarrow> t - timestamps ! i < t - timestamps ! j)))
   \<and> (\<not> (\<exists>j. on_or_before timestamps closes t j) \<and> (\<exists>j. has_close timestamps closes j) \<longrightarrow>
      (\<exists>i. findClosestPriceWithIndex timestamps closes (Ts t)
              = \<lparr>closest_price = js_nth closes (int i), closest_index = int i\<rparr>
          \<and> has_close timestamps closes i
          \<and> (\<forall>j. has_close timestamps closes j \<longrightarrow> \<bar>t - timestamps ! i\<bar> \<le> \<bar>t - timestamps ! j\<bar>)
          \<and> (\<forall>j<i. has_close timestamps closes j \<longrightarrow> \<bar>t - timestamps ! i\<bar> < \<bar>t - timestamps ! j\<bar>)))
   \<and> (\<not> (\<exists>j. has_close timestamps closes j) \<longrightarrow>
      findClosestPriceWithIndex timestamps closes (Ts t) = \<lparr>closest_price = Null, closest_index = -1\<rparr>)
   \<and> (a \<noteq> Null \<and> b \<noteq> Null \<longrightarrow>
      findClosestPriceWithIndex [t - 2 * 86400, t + 86400] [a, b] (Ts t)
        = \<lparr>closest_price = a, closest_index = 0\<rparr>)"
  using closest_before [of timestamps closes t] closest_fallback [of timestamps closes t]
    closest_none [of timestamps closes t] closest_example [of a t b]
  by blast

theorem closest_date_selection_witness:
  "on_or_before [100, 200, 300, 400] [Num 1, Null, Num 3, Num 4] 250 0
   \<and> findClosestPriceWithIndex [100, 200, 300, 400] [Num 1, Null, Num 3, Num 4] (Ts 250)
       = \<lparr>closest_price = Num 1, closest_index = 0\<rparr>
   \<and> \<not> (\<exists>j. on_or_before [300, 400] [Null, Num 4] 250 j) \<and> has_close [300, 400] [Null, Num 4] 1
   \<and> findClosestPriceWithIndex [300, 400] [Null, Num 4] (Ts 250)
       = \<lparr>closest_price = Num 4, closest_index = 1\<rparr>
   \<and> \<not> (\<exists>j. has_close [300, 400] [Null, Null] j)
   \<and> findClosestPriceWithIndex [300, 400] [Null, Null] (Ts 250)
       = \<lparr>closest_price = Null, closest_index = -1\<rparr>"
proof -
  have ob: "\<And>j. on_or_before [100, 200, 300, 400] [Num 1, Null, Num 3, Num 4] 250 j \<longleftrightarrow> j = 0"
    by (auto simp: on_or_before_def has_close_def js_nth_def nth_Cons' less_Suc_eq numeral_eq_Suc split: if_splits)
  have w1: "findClosestPriceWithIndex [100, 200, 300, 400] [Num 1, Null, Num 3, Num 4] (Ts 250)
       = \<lparr>closest_price = Num 1, closest_index = 0\<rparr>"
    using closest_date_selection [of "[100, 200, 300, 400]" "[Num 1, Null, Num 3, Num 4]" 250] ob
    by (auto simp: js_nth_def)
  have nb: "\<not> (\<exists>j. on_or_before [300, 400] [Null, Num 4] 250 j)"
    by (auto simp: on_or_before_def has_close_def js_nth_def nth_Cons' less_Suc_eq numeral_eq_Suc split: if_splits)
  have hc: "\<And>j. has_close [300, 400] [Null, Num 4] j \<longleftrightarrow> j = 1"
    by (auto simp: has_close_def js_nth_def nth_Cons' less_Suc_eq numeral_eq_Suc split: if_splits)
  have w2: "findClosestPriceWithIndex [300, 400] [Null, Num 4] (Ts 250)
       = \<lparr>closest_price = Num 4, closest_index = 1\<rparr>"
    using closest_date_selection [of "[300, 400]" "[Null, Num 4]" 250] nb hc
    by (auto simp: js_nth_def)
  have nc: "\<not> (\<exists>j. has_close [300, 400] [Null, Null] j)"
    by (auto simp: has_close_def js_nth_def nth_Cons' less_Suc_eq numeral_eq_Suc split: if_splits)
  have w3: "findClosestPriceWithIndex [300, 400] [Null, Null] (Ts 250)
       = \<lparr>closest_price = Null, closest_index = -1\<rparr>"
    using closest_date_selection [of "[300, 400]" "[Null, Null]" 250] nc by blast
  show ?thesis using ob w1 nb hc w2 nc w3 by blast
qed

subsection \<open>Deduplication\<close>

lemma seen_keys:
  "fst ` set (foldl (getUniqueStocks_step c d) [] rows) = {k. \<exists>r \<in> set rows. identifier_of c r = Some k}"
proof (induction rows rule: rev_induct)
  case Nil
  then show ?case by simp
next
  case (snoc r rows)
  let ?seen = "foldl (getUniqueStocks_step c d) [] rows"
  show ?case
  proof (cases "identifier_of c r")
    case None
    then have "getUniqueStocks_step c d ?seen r = ?seen"
      by (auto simp: getUniqueStocks_step_def identifier_of_def Let_def split: if_splits)
    then show ?thesis using snoc None by auto
  next
    case (Some k)
    then have k: "c < length r" "trim (r ! c) = k" "k \<noteq> []"
      by (auto simp: identifier_of_def split: if_splits)
    show ?thesis
    proof (cases "map_has ?seen k")
      case True
      then have "getUniqueStocks_step c d ?seen r = ?seen"
        using k by (simp add: getUniqueStocks_step_def Let_def)
      moreover have "k \<in> fst ` set ?seen" using True by (simp add: map_has_def)
      ultimately show ?thesis using snoc Some by auto
    next
      case False
      then have "getUniqueStocks_step c d ?seen r = ?seen @ [(k, stock_of c d r)]"
        using k by (simp add: getUniqueStocks_step_def Let_def map_set_def stock_of_def)
      then show ?thesis using snoc Some by auto
    qed
  qed
qed

lemma first_occurrence_append:
  "k < length rows \<Longrightarrow> first_occurrence c (rows @ [r]) k = first_occurrence c rows k"
  by (auto simp: first_occurrence_def nth_append)

lemma first_occurrence_last:
  "first_occurrence c (rows @ [r]) (length rows) \<longleftrightarrow>
     identifier_of c r \<noteq> None \<and> (\<forall>r' \<in> set rows. identifier_of c r' \<noteq> identifier_of c r)"
proof -
  have "(\<forall>k' < length rows. identifier_of c (rows ! k') \<noteq> identifier_of c r)
      \<longleftrightarrow> (\<forall>r' \<in> set rows. identifier_of c r' \<noteq> identifier_of c r)"
    by (metis in_set_conv_nth)
  then show ?thesis by (simp add: first_occurrence_def nth_append)
qed

lemma seen_first_occurrences:
  "foldl (getUniqueStocks_step c d) [] rows =
     map (\<lambda>k. (trim (rows ! k ! c), stock_of c d (rows ! k)))
       (filter (first_occurrence c rows) [0..<length rows])"
proof (induction rows rule: rev_induct)
  case Nil
  then show ?case by simp
next
  case (snoc r rows)
  let ?seen = "foldl (getUniqueStocks_step c d) [] rows"
  have old: "map (\<lambda>k. (trim ((rows @ [r]) ! k ! c), stock_of c d ((rows @ [r]) ! k)))
       (filter (first_occurrence c (rows @ [r])) [0..<length rows]) = ?seen"
    unfolding snoc.IH
    by (intro arg_cong2 [where f = map] ext filter_cong map_cong refl)
       (auto simp: first_occurrence_append nth_append)
  have keys: "map_has ?seen k \<longleftrightarrow> (\<exists>r' \<in> set rows. identifier_of c r' = Some k)" for k
    using seen_keys [of c d rows] by (auto simp: map_has_def)
  show ?case
  proof (cases "first_occurrence c (rows @ [r]) (length rows)")
    case True
    then obtain k where k: "identifier_of c r = Some k" "\<forall>r' \<in> set rows. identifier_of c r' \<noteq> Some k"
      by (auto simp: first_occurrence_last)
    then have k': "c < length r" "trim (r ! c) = k" "k \<noteq> []"
      by (auto simp: identifier_of_def split: if_splits)
    have "getUniqueStocks_step c d ?seen r = ?seen @ [(k, stock_of c d r)]"
      using k k' keys by (simp add: getUniqueStocks_step_def Let_def map_set_def stock_of_def)
    then show ?thesis using True old k' by simp
  next
    case False
    have "getUniqueStocks_step c d ?seen r = ?seen"
    proof (cases "identifier_of c r")
      case None
      then show ?thesis
        by (auto simp: getUniqueStocks_step_def identifier_of_def Let_def split: if_splits)
    next
      case (Some k)
      then have k': "c < length r" "trim (r ! c) = k" "k \<noteq> []"
        by (auto simp: identifier_of_def split: if_splits)
      have "map_has ?seen k" using False Some keys by (auto simp: first_occurrence_last)
      then show ?thesis using k' by (simp add: getUniqueStocks_step_def Let_def)
    qed
    then show ?thesis using False old by simp
  qed
qed

lemma getUniqueStocks_first_occurrences:
  "getUniqueStocks rows c d =
     map (\<lambda>k. stock_of c d (rows ! k)) (filter (first_occurrence c rows) [0..<length rows])"
  by (simp add: getUniqueStocks_def seen_first_occurrences comp_def)

lemma stock_rawCode_stock_of: "stock_rawCode (stock_of c d r) = trim (r ! c)"
  by (simp add: stock_of_def)

lemma first_occurrence_identifier:
  "first_occurrence c rows k \<Longrightarrow> identifier_of c (rows ! k) = Some (trim (rows ! k ! c))"
  by (auto simp: first_occurrence_def identifier_of_def split: if_splits)

lemma first_occurrences_distinct:
  "distinct (map (\<lambda>k. trim (rows ! k ! c)) (filter (first_occurrence c rows) [0..<length rows]))"
proof -
  have "inj_on (\<lambda>k. trim (rows ! k ! c)) {k. first_occurrence c rows k}"
  proof (rule inj_onI)
    fix x y assume x: "x \<in> {k. first_occurrence c rows k}" and y: "y \<in> {k. first_occurrence c rows k}"
      and eq: "trim (rows ! x ! c) = trim (rows ! y ! c)"
    have ids: "identifier_of c (rows ! x) = identifier_of c (rows ! y)"
      using x y eq by (simp add: first_occurrence_identifier)
    show "x = y"
    proof (rule ccontr)
      assume "x \<noteq> y"
      then consider "x < y" | "y < x" by linarith
      then show False
        using x y ids by cases (auto simp: first_occurrence_def)
    qed
  qed
  then have "inj_on (\<lambda>k. trim (rows ! k ! c)) (set (filter (first_occurrence c rows) [0..<length rows]))"
    by (rule inj_on_subset) auto
  then show ?thesis by (simp add: distinct_map)
qed

lemma getUniqueStocks_rawCodes:
  "map stock_rawCode (getUniqueStocks rows c d) =
     map fst (foldl (getUniqueStocks_step c d) [] rows)"
  by (simp add: getUniqueStocks_def seen_first_occurrences comp_def stock_rawCode_stock_of)

lemma getUniqueStocks_distinct: "distinct (map stock_rawCode (getUniqueStocks rows c d))"
  using first_occurrences_distinct [of rows c]
  by (simp add: getUniqueStocks_first_occurrences comp_def stock_rawCode_stock_of)

lemma getUniqueStocks_set:
  "set (map stock_rawCode (getUniqueStocks rows c d)) = {k. \<exists>r \<in> set rows. identifier_of c r = Some k}"
  using seen_keys [of c d rows] by (simp add: getUniqueStocks_rawCodes)

lemma dedup_example:
  "getUniqueStocks dedup_rows 4 0 =
     [\<lparr>stock_ticker = None, stock_date = js ''2024/01/01'', stock_rawCode = js ''100''\<rparr>,
      \<lparr>stock_ticker = None, stock_date = js ''2024/02/01'', stock_rawCode = js ''200''\<rparr>]"
  by code_simp

text \<open>
  Claim C5, amended. For every list of rows, the resolver yields exactly one StockRef for
  every distinct non-blank trimmed identifier (rows without a code cell or with a blank
  one yield none), in the order of first occurrence; the StockRef is built from the row
  where the identifier first occurs, so it carries that row's date, and later rows with
  the same identifier change nothing. Identifiers \<open>["100", "100", "200"]\<close> with dates
  \<open>["2024/01/01", "2024/01/02", "2024/02/01"]\<close> yield two StockRefs, the one for
  \<open>"100"\<close> dated \<open>"2024/01/01"\<close>.
\<close>

theorem getUniqueStocks_dedup:
  "getUniqueStocks rows codeColIdx dateColIdx =
     map (\<lambda>k. stock_of codeColIdx dateColIdx (rows ! k))
       (filter (first_occurrence codeColIdx rows) [0..<length rows])
   \<and> distinct (map stock_rawCode (getUniqueStocks rows codeColIdx dateColIdx))
   \<and> set (map stock_rawCode (getUniqueStocks rows codeColIdx dateColIdx))
       = {k. \<exists>r \<in> set rows. identifier_of codeColIdx r = Some k}
   \<and> getUniqueStocks dedup_rows 4 0 =
       [\<lparr>stock_ticker = None, stock_date = js ''2024/01/01'', stock_rawCode = js ''100''\<rparr>,
        \<lparr>stock_ticker = None, stock_date = js ''2024/02/01'', stock_rawCode = js ''200''\<rparr>]"
  using getUniqueStocks_first_occurrences getUniqueStocks_distinct getUniqueStocks_set dedup_example
  by blast

lemma first_occurrence_row0: "first_occurrence 4 dedup_rows 0"
  by code_simp

lemma first_occurrence_row1: "\<not> first_occurrence 4 dedup_rows 1"
  by code_simp

lemma first_occurrence_row2: "first_occurrence 4 dedup_rows 2"
  by code_simp

theorem getUniqueStocks_dedup_witness:
  "first_occurrence 4 dedup_rows 0 \<and> \<not> first_occurrence 4 dedup_rows 1 \<and> first_occurrence 4 dedup_rows 2
   \<and> getUniqueStocks dedup_rows 4 0 = [stock_of 4 0 (dedup_rows ! 0), stock_of 4 0 (dedup_rows ! 2)]"
proof -
  have len: "[0..<length dedup_rows] = [0, 1, 2]"
    by code_simp
  show ?thesis
    using getUniqueStocks_dedup [of dedup_rows 4 0]
      first_occurrence_row0 first_occurrence_row1 first_occurrence_row2
    by (simp add: len)
qed

text \<open>
  As stated, C5 promises a StockRef for every distinct trimmed identifier. A row whose
  code cell is blank carries the trimmed identifier \<open>""\<close> and gets none: the guard
  \<open>if (!code || seen.has(code)) continue\<close> skips it.
\<close>

theorem getUniqueStocks_blank_identifier_counterexample:
  "length blank_rows = 1 \<and> 4 < length (blank_rows ! 0) \<and> trim (blank_rows ! 0 ! 4) = []
   \<and> getUniqueStocks blank_rows 4 0 = []"
  by code_simp

subsection \<open>Lookup results\<close>

lemma nan_before_loop: "fold (before_step ts cs TsNaN) xs b = b"
  by (induction xs arbitrary: b) (simp_all add: before_step_def)

lemma nan_nearest_loop: "fold (nearest_step ts cs TsNaN) xs b = b"
  by (induction xs arbitrary: b) (simp_all add: nearest_step_def)

lemma closest_nan:
  "findClosestPriceWithIndex ts cs TsNaN = \<lparr>closest_price = Null, closest_index = -1\<rparr>"
  by (simp add: findClosestPriceWithIndex_def nan_before_loop nan_nearest_loop)

lemma closest_found:
  assumes "\<exists>j. has_close ts cs j"
  shows "\<exists>i < length ts. findClosestPriceWithIndex ts cs (Ts t)
            = \<lparr>closest_price = js_nth cs (int i), closest_index = int i\<rparr>
          \<and> js_nth cs (int i) \<noteq> Null"
proof (cases "\<exists>j. on_or_before ts cs t j")
  case True
  from closest_before [OF True] show ?thesis
    by (auto simp: on_or_before_def has_close_def)
next
  case False
  from closest_fallback [OF False assms] show ?thesis
    by (auto simp: has_close_def)
qed

lemma closest_missing_iff:
  "(closest_price (findClosestPriceWithIndex ts cs targetTs) = Null
      \<or> closest_index (findClosestPriceWithIndex ts cs targetTs) = -1)
   \<longleftrightarrow> targetTs = TsNaN \<or> \<not> (\<exists>j < length ts. has_close ts cs j)"
proof (cases targetTs)
  case TsNaN
  then show ?thesis by (simp add: closest_nan)
next
  case (Ts t)
  have b: "(\<exists>j < length ts. has_close ts cs j) \<longleftrightarrow> (\<exists>j. has_close ts cs j)"
    by (auto simp: has_close_def)
  show ?thesis
  proof (cases "\<exists>j. has_close ts cs j")
    case True
    from closest_found [OF True, of t] show ?thesis using Ts True b by auto
  next
    case False
    then show ?thesis using Ts b closest_none [OF False, of t] by simp
  qed
qed

lemma closest_dividend_exn: "closest_dividend targetTs ds = Inl x \<Longrightarrow> x = TypeError"
proof -
  have "dividend_loop targetTs es c a = Inl x \<Longrightarrow> x = TypeError" for es c a
    by (induction targetTs es c a rule: dividend_loop.induct)
       (auto simp: Let_def split: timestamp.splits if_splits option.splits)
  then show "closest_dividend targetTs ds = Inl x \<Longrightarrow> x = TypeError"
    by (auto simp: closest_dividend_def split: option.splits)
qed

lemma of_double_nonnull: "of_double x \<noteq> Null"
  by (cases x) simp_all

lemma round_to_nonnull: "round_to k v \<noteq> Null"
  by (simp add: round_to_def of_double_nonnull)

lemma null_error_shape: "failure_shape (nullResult\<lparr>error := Some x\<rparr>)"
  by (simp add: failure_shape_def nullResult_def)

lemma process_result_shape:
  "process_result e targetTs result = Inr r \<Longrightarrow>
     (if result_ok targetTs result then success_shape r else failure_shape r)"
  unfolding process_result_def result_ok_def
  using closest_missing_iff [of "the (res_timestamp result)" "the (res_close result)" targetTs]
  by (cases "res_timestamp result"; cases "res_close result")
     (auto simp: Let_def null_error_shape success_shape_def round_to_nonnull
        split: if_splits sum.splits dest: closest_dividend_exn)

lemma process_result_throws:
  "process_result e targetTs result = Inl x \<Longrightarrow> \<not> result_ok targetTs result"
  unfolding process_result_def result_ok_def
  by (cases "res_timestamp result"; cases "res_close result")
     (auto simp: Let_def split: if_splits sum.splits dest: closest_dividend_exn)

lemma process_data_shape:
  "process_data e targetTs data = Inr r \<Longrightarrow>
     (case data of Data (Results (Some result # rest)) \<Rightarrow>
        (if result_ok targetTs result then success_shape r else failure_shape r)
      | _ \<Rightarrow> failure_shape r)"
  by (auto simp: process_data_def null_error_shape
      split: response_data.splits chart.splits list.splits option.splits
      dest: process_result_shape)

lemma process_data_throws:
  "process_data e targetTs data = Inl x \<Longrightarrow>
     (case data of Data (Results (Some result # rest)) \<Rightarrow> \<not> result_ok targetTs result | _ \<Rightarrow> True)"
  by (auto simp: process_data_def
      split: response_data.splits chart.splits list.splits option.splits
      dest: process_result_throws)


lemma fetchClosingPrice_shape:
  "if success_path e ticker d then success_shape (snd (fetchClosingPrice e ticker d))
   else failure_shape (snd (fetchClosingPrice e ticker d))"
proof (cases ticker)
  case None
  then show ?thesis by (simp add: fetchClosingPrice_def success_path_def null_error_shape)
next
  case (Some t)
  show ?thesis
  proof (cases "t = [] \<or> lone_surrogate t")
    case True
    then show ?thesis using Some
      by (auto simp: fetchClosingPrice_def success_path_def try_block_def null_error_shape Let_def)
  next
    case False
    let ?ts = "dateToTs e (replace_slashes d)"
    show ?thesis
    proof (cases "fetch e (price_request t ?ts)")
      case (Rejected m)
      then show ?thesis using Some False
        by (simp add: fetchClosingPrice_def success_path_def try_block_def null_error_shape Let_def)
    next
      case (Response status body)
      show ?thesis
      proof (cases "ok status")
        case nok: False
        then show ?thesis using Some False Response
          by (simp add: fetchClosingPrice_def success_path_def try_block_def null_error_shape Let_def
              split: response_body.splits response_data.splits chart.splits list.splits option.splits)
      next
        case isok: True
        show ?thesis
        proof (cases body)
          case (Malformed m)
          then show ?thesis using Some False Response isok
            by (simp add: fetchClosingPrice_def success_path_def try_block_def null_error_shape Let_def)
        next
          case (Parsed data)
          have tb: "try_block e t d = ([price_request t ?ts], process_data e ?ts data)"
            using False Response isok Parsed by (simp add: try_block_def Let_def)
          have sp: "success_path e ticker d \<longleftrightarrow>
              (case data of Data (Results (Some result # rest)) \<Rightarrow> result_ok ?ts result | _ \<Rightarrow> False)"
            using Some False Response isok Parsed
            by (simp add: success_path_def Let_def
                split: response_data.splits chart.splits list.splits option.splits)
          show ?thesis
          proof (cases "process_data e ?ts data")
            case (Inl x)
            then have "snd (fetchClosingPrice e ticker d) = nullResult\<lparr>error := Some (Caught x)\<rparr>"
              using Some False tb by (simp add: fetchClosingPrice_def)
            moreover have "\<not> success_path e ticker d"
              using process_data_throws [OF Inl] sp
              by (auto split: response_data.splits chart.splits list.splits option.splits)
            ultimately show ?thesis by (simp add: null_error_shape)
          next
            case (Inr r)
            then have "snd (fetchClosingPrice e ticker d) = r"
              using Some False tb by (simp add: fetchClosingPrice_def)
            then show ?thesis
              using process_data_shape [OF Inr] sp
              by (auto split: response_data.splits chart.splits list.splits option.splits)
          qed
        qed
      qed
    qed
  qed
qed

lemma fetchClosingPrice_requests:
  "fst (fetchClosingPrice e ticker d) =
     (case ticker of None \<Rightarrow> []
      | Some t \<Rightarrow> if t = [] \<or> lone_surrogate t then []
                  else [price_request t (dateToTs e (replace_slashes d))])"
  by (auto simp: fetchClosingPrice_def try_block_def Let_def
      split: option.splits fetch_outcome.splits response_body.splits sum.splits prod.splits)





subsection \<open>Request window\<close>

text \<open>
  Claim C6. Every request \<open>fetchClosingPrice\<close> sends asks for the window from
  \<open>45 * 86400\<close> seconds before the target timestamp to \<open>14 * 86400\<close> seconds after
  it; for a truthy, encodable ticker and a date that parses to \<open>targetTs\<close> it sends
  exactly that one request.
\<close>

theorem request_window:
  "(\<forall>req \<in> set (fst (fetchClosingPrice e ticker targetDateStr)).
      period1 req = ts_minus (dateToTs e (replace_slashes targetDateStr)) (45 * 86400)
      \<and> period2 req = ts_plus (dateToTs e (replace_slashes targetDateStr)) (14 * 86400))
   \<and> (t \<noteq> [] \<and> \<not> lone_surrogate t \<and> dateToTs e (replace_slashes targetDateStr) = Ts targetTs \<longrightarrow>
        fst (fetchClosingPrice e (Some t) targetDateStr)
          = [\<lparr>req_ticker = t, period1 = Ts (targetTs - 45 * 86400),
               period2 = Ts (targetTs + 14 * 86400)\<rparr>])"
  by (auto simp: fetchClosingPrice_requests price_request_def ts_minus_def ts_plus_def Let_def
      split: option.splits)

theorem request_window_witness:
  "js ''7203.T'' \<noteq> [] \<and> \<not> lone_surrogate (js ''7203.T'')
   \<and> dateToTs sample_env (replace_slashes (js ''2023/11/14'')) = Ts 1699920000
   \<and> fst (fetchClosingPrice sample_env (Some (js ''7203.T'')) (js ''2023/11/14''))
       = [\<lparr>req_ticker = js ''7203.T'', period1 = Ts 1696032000, period2 = Ts 1701129600\<rparr>]"
proof -
  have a: "js ''7203.T'' \<noteq> []" by (simp add: js_def)
  have b: "\<not> lone_surrogate (js ''7203.T'')" by code_simp
  have c: "dateToTs sample_env (replace_slashes (js ''2023/11/14'')) = Ts 1699920000"
    by (simp add: sample_env_def)
  show ?thesis
    using request_window [of sample_env "Some (js ''7203.T'')" "js ''2023/11/14''" "js ''7203.T''" 1699920000]
      a b c by simp
qed

lemma request_window_part_000:
  "period1 (price_request_part_000 t (Ts x)) = Ts (x - 14 * 86400)
   \<and> period2 (price_request_part_000 t (Ts x)) = Ts (x + 14 * 86400)"
  by (simp add: price_request_part_000_def ts_minus_def ts_plus_def)

subsection \<open>Batch pacing\<close>

lemma lookup_stock_trace:
  "\<exists>evs. trace (lookup_stock e tot st s) = trace st @ evs \<and> filter is_pacing evs = []"
  by (auto simp: lookup_stock_def Let_def split: prod.splits)

lemma lookup_stock_pacing:
  "filter is_pacing (trace (lookup_stock e tot st s)) = filter is_pacing (trace st)"
  using lookup_stock_trace [of e tot st s] by auto

lemma batch_pacing:
  "filter is_pacing (trace (foldl (lookup_stock e tot) st batch)) = filter is_pacing (trace st)"
  by (induction batch arbitrary: st) (simp_all add: lookup_stock_pacing)

lemma paced_Cons: "paced (b # bs) = Dispatch b # (if bs = [] then [] else Sleep 1500 # paced bs)"
  by (cases bs) simp_all

lemma batches_from_empty_iff: "batches_from i stocks = [] \<longleftrightarrow> \<not> i < length stocks"
  by (subst batches_from.simps) simp

lemma batch_loop_pacing:
  "filter is_pacing (trace (batch_loop e stocks i st))
     = filter is_pacing (trace st) @ paced (batches_from i stocks)"
proof (induction e stocks i st rule: batch_loop.induct)
  case (1 e stocks i st)
  show ?case
  proof (cases "i < length stocks")
    case False
    then show ?thesis
      by (subst batch_loop.simps, subst batches_from.simps) simp
  next
    case True
    let ?batch = "take BATCH_SIZE (drop i stocks)"
    let ?st1 = "st\<lparr>trace := trace st @ [Dispatch ?batch]\<rparr>"
    let ?st2 = "foldl (lookup_stock e (length stocks)) ?st1 ?batch"
    let ?st3 = "if i + BATCH_SIZE < length stocks
                then ?st2\<lparr>trace := trace ?st2 @ [Sleep BATCH_DELAY_MS]\<rparr> else ?st2"
    have loop: "batch_loop e stocks i st = batch_loop e stocks (i + BATCH_SIZE) ?st3"
      using True by (subst batch_loop.simps) (simp add: Let_def)
    have ih: "filter is_pacing (trace (batch_loop e stocks (i + BATCH_SIZE) ?st3))
        = filter is_pacing (trace ?st3) @ paced (batches_from (i + BATCH_SIZE) stocks)"
      using "1.IH" [OF refl True refl refl refl refl] .
    have st3: "filter is_pacing (trace ?st3)
        = filter is_pacing (trace st) @ Dispatch ?batch
            # (if i + BATCH_SIZE < length stocks then [Sleep BATCH_DELAY_MS] else [])"
      by (simp add: batch_pacing)
    have bf: "batches_from i stocks = ?batch # batches_from (i + BATCH_SIZE) stocks"
      using True by (subst batches_from.simps) (simp add: BATCH_SIZE_def)
    show ?thesis
    proof (cases "i + BATCH_SIZE < length stocks")
      case more: True
      then have "batches_from (i + BATCH_SIZE) stocks \<noteq> []"
        by (simp add: batches_from_empty_iff)
      then show ?thesis
        unfolding loop ih st3 bf paced_Cons using more by (simp add: BATCH_DELAY_MS_def)
    next
      case last: False
      then have "batches_from (i + BATCH_SIZE) stocks = []"
        by (simp add: batches_from_empty_iff)
      then show ?thesis
        unfolding loop ih st3 bf paced_Cons using last by simp
    qed
  qed
qed

lemma fetchAllPrices_pacing:
  "filter is_pacing (trace (fetchAllPrices e stocks)) = paced (batches_from 0 stocks)"
  by (simp add: fetchAllPrices_def Let_def batch_loop_pacing)

lemma dispatched_filter: "dispatched (filter is_pacing evs) = dispatched evs"
  by (induction evs rule: dispatched.induct) simp_all

lemma dispatched_paced: "dispatched (paced bs) = bs"
  by (induction bs rule: paced.induct) simp_all

lemma sleep_filter: "filter is_sleep (filter is_pacing evs) = filter is_sleep evs"
proof (induction evs)
  case Nil
  then show ?case by simp
next
  case (Cons ev evs)
  then show ?case by (cases ev) simp_all
qed

lemma sleep_paced: "filter is_sleep (paced bs) = replicate (length bs - 1) (Sleep 1500)"
  by (induction bs rule: paced.induct) simp_all

lemma batches_from_concat: "concat (batches_from i stocks) = drop i stocks"
proof (induction i stocks rule: batches_from.induct)
  case (1 i stocks)
  show ?case
  proof (cases "i < length stocks")
    case True
    have "take 5 (drop i stocks) @ drop (i + 5) stocks = drop i stocks"
      by (metis add.commute append_take_drop_id drop_drop)
    then show ?thesis using True "1.IH" by (subst batches_from.simps) simp
  next
    case False
    then show ?thesis by (subst batches_from.simps) simp
  qed
qed

lemma batches_from_length: "length (batches_from i stocks) = (length stocks - i + 4) div 5"
proof (induction i stocks rule: batches_from.induct)
  case (1 i stocks)
  show ?case
  proof (cases "i < length stocks")
    case True
    then have "length (batches_from i stocks) = Suc ((length stocks - (i + 5) + 4) div 5)"
      using "1.IH" by (subst batches_from.simps) simp
    also have "\<dots> = (length stocks - i + 4) div 5"
    proof (cases "i + 5 \<le> length stocks")
      case True
      then have "length stocks - i + 4 = (length stocks - (i + 5) + 4) + 5" by simp
      then show ?thesis by (simp only: div_add_self2)
    next
      case False
      then have "length stocks - (i + 5) = 0" "5 \<le> length stocks - i + 4" "length stocks - i + 4 < 10"
        using True by simp_all
      then have "(length stocks - i + 4) div 5 = 1" by linarith
      then show ?thesis using \<open>length stocks - (i + 5) = 0\<close> by simp
    qed
    finally show ?thesis .
  next
    case False
    then show ?thesis by (subst batches_from.simps) simp
  qed
qed

lemma batches_from_nth:
  "j < length (batches_from i stocks) \<Longrightarrow> batches_from i stocks ! j = take 5 (drop (i + 5 * j) stocks)"
proof (induction i stocks arbitrary: j rule: batches_from.induct)
  case (1 i stocks)
  show ?case
  proof (cases "i < length stocks")
    case True
    have bf: "batches_from i stocks = take 5 (drop i stocks) # batches_from (i + 5) stocks"
      using True by (subst batches_from.simps) simp
    show ?thesis
    proof (cases j)
      case 0
      then show ?thesis by (simp add: bf)
    next
      case (Suc k)
      then have "k < length (batches_from (i + 5) stocks)" using "1.prems" bf by simp
      have "i + 5 + 5 * k = i + 5 * Suc k" by simp
      with "1.IH" [OF True \<open>k < length (batches_from (i + 5) stocks)\<close>] show ?thesis
        using Suc bf by (simp del: mult_Suc_right)
    qed
  next
    case False
    then have "batches_from i stocks = []" by (simp add: batches_from_empty_iff)
    then show ?thesis using "1.prems" by simp
  qed
qed

lemma batches_full:
  assumes "Suc j < length (batches_from 0 stocks)"
  shows "length (batches_from 0 stocks ! j) = 5"
proof -
  have "Suc j < (length stocks + 4) div 5" using assms by (simp add: batches_from_length)
  then have "5 * j + 5 \<le> length stocks" by presburger
  then show ?thesis using assms by (simp add: batches_from_nth)
qed

lemma batches_sizes:
  assumes "b \<in> set (batches_from 0 stocks)"
  shows "0 < length b \<and> length b \<le> 5"
proof -
  from assms obtain j where j: "j < length (batches_from 0 stocks)" "b = batches_from 0 stocks ! j"
    by (auto simp: in_set_conv_nth)
  then have "j < (length stocks + 4) div 5" by (simp add: batches_from_length)
  then have "5 * j < length stocks" by presburger
  then show ?thesis using j by (simp add: batches_from_nth)
qed

lemma ceiling_fifth: "int ((n + 4) div 5) = \<lceil>rat_of_nat n / 5\<rceil>"
proof -
  have "\<lceil>rat_of_nat n / 5\<rceil> = \<lceil>rat_of_int (int n) / rat_of_int 5\<rceil>" by simp
  also have "\<dots> = - (- int n div 5)" by (rule ceiling_divide_eq_div)
  also have "\<dots> = int ((n + 4) div 5)" by presburger
  finally show ?thesis by simp
qed

lemma twelve_batches:
  "map length (batches_from 0 twelve_stocks) = [5, 5, 2]"
  by (simp add: twelve_stocks_def batches_from.simps)

text \<open>
  Claim C7. For every list of \<open>n\<close> stocks the run dispatches, in order, the
  \<open>ceil(n / 5)\<close> consecutive slices of five stocks (the last one possibly shorter, none
  empty), and its dispatch and sleep events are those batches with one sleep of 1500 ms
  between consecutive batches and none after the last: \<open>ceil(n / 5) - 1\<close> sleeps when
  the list is not empty (the button handler never starts a run on an empty list, which
  would dispatch nothing and sleep never). Twelve stocks give batches of 5, 5 and 2 and
  two sleeps.
\<close>

theorem batch_pacing_schedule:
  "filter is_pacing (trace (fetchAllPrices e stocks)) = paced (batches_from 0 stocks)
   \<and> dispatched (trace (fetchAllPrices e stocks)) = batches_from 0 stocks
   \<and> concat (batches_from 0 stocks) = stocks
   \<and> int (length (batches_from 0 stocks)) = \<lceil>rat_of_nat (length stocks) / 5\<rceil>
   \<and> (\<forall>j < length (batches_from 0 stocks). batches_from 0 stocks ! j = take 5 (drop (5 * j) stocks))
   \<and> (\<forall>j. Suc j < length (batches_from 0 stocks) \<longrightarrow> length (batches_from 0 stocks ! j) = 5)
   \<and> (\<forall>b \<in> set (batches_from 0 stocks). 0 < length b \<and> length b \<le> 5)
   \<and> filter is_sleep (trace (fetchAllPrices e stocks))
       = replicate (length (batches_from 0 stocks) - 1) (Sleep 1500)
   \<and> (stocks \<noteq> [] \<longrightarrow>
        int (length (filter is_sleep (trace (fetchAllPrices e stocks))))
          = \<lceil>rat_of_nat (length stocks) / 5\<rceil> - 1)
   \<and> map length (dispatched (trace (fetchAllPrices e twelve_stocks))) = [5, 5, 2]
   \<and> filter is_sleep (trace (fetchAllPrices e twelve_stocks)) = [Sleep 1500, Sleep 1500]"
proof -
  let ?tr = "trace (fetchAllPrices e stocks)"
  let ?bs = "batches_from 0 stocks"
  have pacing: "filter is_pacing (trace (fetchAllPrices e xs)) = paced (batches_from 0 xs)" for xs
    by (rule fetchAllPrices_pacing)
  have disp: "dispatched (trace (fetchAllPrices e xs)) = batches_from 0 xs" for xs
    using dispatched_filter [of "trace (fetchAllPrices e xs)"] by (simp add: pacing dispatched_paced)
  have sleeps: "filter is_sleep (trace (fetchAllPrices e xs))
      = replicate (length (batches_from 0 xs) - 1) (Sleep 1500)" for xs
    using sleep_filter [of "trace (fetchAllPrices e xs)"] by (simp add: pacing sleep_paced)
  have len: "int (length ?bs) = \<lceil>rat_of_nat (length stocks) / 5\<rceil>"
    using ceiling_fifth [of "length stocks"] by (simp add: batches_from_length)
  have count: "int (length (filter is_sleep ?tr)) = \<lceil>rat_of_nat (length stocks) / 5\<rceil> - 1"
    if "stocks \<noteq> []"
  proof -
    have "?bs \<noteq> []" using that by (simp add: batches_from_empty_iff)
    then have "int (length ?bs - 1) = int (length ?bs) - 1"
      by (cases ?bs) simp_all
    then show ?thesis using len by (simp add: sleeps)
  qed
  have twelve: "length (batches_from 0 twelve_stocks) = 3"
    using arg_cong [OF twelve_batches, of length] by simp
  have sl12: "filter is_sleep (trace (fetchAllPrices e twelve_stocks)) = [Sleep 1500, Sleep 1500]"
    by (simp add: sleeps twelve numeral_eq_Suc)
  show ?thesis
    using pacing [of stocks] disp [of stocks] sleeps [of stocks] len count
      batches_from_concat [of 0 stocks] batches_from_nth [of _ 0 stocks]
      batches_full [of _ stocks] batches_sizes [of _ stocks]
      twelve_batches sl12
    by (simp add: disp)
qed

theorem batch_pacing_schedule_witness:
  "twelve_stocks \<noteq> []
   \<and> int (length (filter is_sleep (trace (fetchAllPrices sample_env twelve_stocks)))) = 2
   \<and> length (batches_from 0 twelve_stocks) = 3
   \<and> length (batches_from 0 twelve_stocks ! 0) = 5
   \<and> batches_from 0 twelve_stocks ! 2 = take 5 (drop 10 twelve_stocks)"
proof -
  have ne: "twelve_stocks \<noteq> []" by (simp add: twelve_stocks_def)
  have n: "length twelve_stocks = 12" by (simp add: twelve_stocks_def)
  have c: "\<lceil>rat_of_nat 12 / 5\<rceil> = (3::int)" by code_simp
  note t = batch_pacing_schedule [of sample_env twelve_stocks]
  have len: "length (batches_from 0 twelve_stocks) = 3" using t c by (simp add: n)
  have "int (length (filter is_sleep (trace (fetchAllPrices sample_env twelve_stocks)))) = 2"
    using t ne c by (simp add: n)
  moreover have "length (batches_from 0 twelve_stocks ! 0) = 5"
  proof -
    from t have "\<forall>j. Suc j < length (batches_from 0 twelve_stocks)
        \<longrightarrow> length (batches_from 0 twelve_stocks ! j) = 5"
      by blast
    then show ?thesis using len by simp
  qed
  moreover have "batches_from 0 twelve_stocks ! 2 = take 5 (drop 10 twelve_stocks)"
  proof -
    from t have "\<forall>j < length (batches_from 0 twelve_stocks).
        batches_from 0 twelve_stocks ! j = take 5 (drop (5 * j) twelve_stocks)"
      by blast
    then have "batches_from 0 twelve_stocks ! 2 = take 5 (drop (5 * 2) twelve_stocks)"
      using len by simp
    then show ?thesis by simp
  qed
  ultimately show ?thesis using ne len by simp
qed

subsection \<open>Result counts\<close>

lemma proto_stocks:
  "getUniqueStocks proto_rows 4 0 =
     [\<lparr>stock_ticker = None, stock_date = js ''2024/01/01'', stock_rawCode = js ''__proto__''\<rparr>]"
  by code_simp

text \<open>
  Claim C9 at a sheet whose only code cell reads \<open>__proto__\<close>: the resolver yields one
  stock with a \<open>null\<close> ticker, its lookup fails with the invalid-ticker error and one
  ErrorRecord is pushed, but \<open>closingPrices["__proto__"] = result\<close> stores no own
  property, so \<open>Object.values(closingPrices)\<close> is empty and the not-available count is
  0 while the error count is 1.
\<close>

theorem counts_disagree_on_proto:
  "showResults (fetchAllPrices e (getUniqueStocks proto_rows 4 0))
     = \<lparr>successN = 0, errorN = 1, naCount = 0\<rparr>"
  by (simp add: proto_stocks showResults_def fetchAllPrices_def batch_loop.simps BATCH_SIZE_def
      lookup_stock_def fetchClosingPrice_def obj_assign_def Object_values_def Let_def)

text \<open>
  The per-result half of C9 holds: the price of a lookup result is \<open>null\<close> exactly
  when its error is not. And the two counts do agree for every run whose stocks have
  distinct codes (as the resolver's have), none of them \<open>__proto__\<close>, in a browser
  whose rejections carry a message.
\<close>

lemma price_null_iff_error:
  "price (snd (fetchClosingPrice e ticker d)) = Null \<longleftrightarrow> error (snd (fetchClosingPrice e ticker d)) \<noteq> None"
  using fetchClosingPrice_shape [of e ticker d]
  by (auto simp: failure_shape_def success_shape_def split: if_splits)

lemma process_data_caught: "process_data e targetTs data = Inl x \<Longrightarrow> x = TypeError"
  by (auto simp: process_data_def process_result_def Let_def
      split: response_data.splits chart.splits list.splits option.splits if_splits sum.splits
      dest: closest_dividend_exn)

lemma process_data_error:
  "process_data e targetTs data = Inr r \<Longrightarrow> error r \<in> {None, Some NoData, Some NoChartData, Some NoValidClose}"
  by (auto simp: process_data_def process_result_def Let_def nullResult_def
      split: response_data.splits chart.splits list.splits option.splits if_splits sum.splits)

lemma error_truthy_lookup:
  assumes "truthy_messages e"
  shows "error_truthy (error (snd (fetchClosingPrice e ticker d)))
     \<longleftrightarrow> error (snd (fetchClosingPrice e ticker d)) \<noteq> None"
proof (cases "ticker = None \<or> ticker = Some []")
  case True
  then show ?thesis by (auto simp: fetchClosingPrice_def nullResult_def)
next
  case False
  then obtain t where t: "ticker = Some t" "t \<noteq> []" by auto
  let ?ts = "dateToTs e (replace_slashes d)"
  show ?thesis
  proof (cases "lone_surrogate t")
    case True
    then show ?thesis using t by (simp add: fetchClosingPrice_def try_block_def nullResult_def Let_def)
  next
    case False
    have msg: "case fetch e (price_request t ?ts) of
              Rejected message \<Rightarrow> message \<noteq> []
            | Response status (Malformed message) \<Rightarrow> message \<noteq> []
            | _ \<Rightarrow> True"
      using assms unfolding truthy_messages_def by blast
    show ?thesis
    proof (cases "fetch e (price_request t ?ts)")
      case (Rejected m)
      then show ?thesis using t False msg
        by (simp add: fetchClosingPrice_def try_block_def nullResult_def Let_def)
    next
      case (Response status body)
      show ?thesis
      proof (cases "ok status")
        case nok: False
        then show ?thesis using t False Response
          by (simp add: fetchClosingPrice_def try_block_def nullResult_def Let_def)
      next
        case isok: True
        show ?thesis
        proof (cases body)
          case (Malformed m)
          then show ?thesis using t False Response isok msg
            by (simp add: fetchClosingPrice_def try_block_def nullResult_def Let_def)
        next
          case (Parsed data)
          have tb: "try_block e t d = ([price_request t ?ts], process_data e ?ts data)"
            using False Response isok Parsed by (simp add: try_block_def Let_def)
          show ?thesis
          proof (cases "process_data e ?ts data")
            case (Inl x)
            then have "x = TypeError" by (rule process_data_caught)
            then show ?thesis using t tb Inl by (simp add: fetchClosingPrice_def nullResult_def)
          next
            case (Inr r)
            then show ?thesis using t tb process_data_error [OF Inr]
              by (auto simp: fetchClosingPrice_def)
          qed
        qed
      qed
    qed
  qed
qed

lemma lookup_stock_counts:
  assumes "truthy_messages e" "stock_rawCode s \<noteq> js ''__proto__''"
    "stock_rawCode s \<notin> fst ` set (closingPrices st)"
  shows "na_of (lookup_stock e tot st s) + length (errorMessages st)
           = na_of st + length (errorMessages (lookup_stock e tot st s))
         \<and> fst ` set (closingPrices (lookup_stock e tot st s))
           = insert (stock_rawCode s) (fst ` set (closingPrices st))"
proof -
  let ?r = "snd (fetchClosingPrice e (stock_ticker s) (stock_date s))"
  have a: "error_truthy (error ?r) \<longleftrightarrow> price ?r = Null"
    using error_truthy_lookup [OF assms(1)] price_null_iff_error by simp
  have cp: "closingPrices (lookup_stock e tot st s) = closingPrices st @ [(stock_rawCode s, ?r)]"
    using assms(2,3)
    by (simp add: lookup_stock_def obj_assign_def map_set_def map_has_def Let_def split: prod.splits)
  have em: "errorMessages (lookup_stock e tot st s) =
      (if error_truthy (error ?r)
       then errorMessages st @ [\<lparr>err_code = stock_rawCode s,
              err_ticker = (case stock_ticker s of None \<Rightarrow> js ''N/A''
                            | Some t \<Rightarrow> if t = [] then js ''N/A'' else t),
              err_error = error ?r\<rparr>]
       else errorMessages st)"
    by (simp add: lookup_stock_def Let_def split: prod.splits)
  show ?thesis using a by (simp add: na_of_def Object_values_def cp em)
qed

lemma batch_counts:
  assumes "truthy_messages e"
  shows "distinct (map stock_rawCode batch) \<Longrightarrow> js ''__proto__'' \<notin> stock_rawCode ` set batch \<Longrightarrow>
     stock_rawCode ` set batch \<inter> fst ` set (closingPrices st) = {} \<Longrightarrow>
     na_of (foldl (lookup_stock e tot) st batch) + length (errorMessages st)
       = na_of st + length (errorMessages (foldl (lookup_stock e tot) st batch))
     \<and> fst ` set (closingPrices (foldl (lookup_stock e tot) st batch))
       = stock_rawCode ` set batch \<union> fst ` set (closingPrices st)"
proof (induction batch arbitrary: st)
  case Nil
  then show ?case by simp
next
  case (Cons s batch)
  let ?st = "lookup_stock e tot st s"
  have s: "stock_rawCode s \<noteq> js ''__proto__''" "stock_rawCode s \<notin> fst ` set (closingPrices st)"
    using Cons.prems by auto
  note one = lookup_stock_counts [OF assms s, of tot]
  have disj: "stock_rawCode ` set batch \<inter> fst ` set (closingPrices ?st) = {}"
    using Cons.prems one by auto
  have "distinct (map stock_rawCode batch)" "js ''__proto__'' \<notin> stock_rawCode ` set batch"
    using Cons.prems by auto
  from Cons.IH [OF this disj] one show ?case by auto
qed

lemma na_of_trace [simp]: "na_of (st\<lparr>trace := t\<rparr>) = na_of st"
  by (simp add: na_of_def)

lemma take_drop_codes:
  assumes "distinct (map stock_rawCode stocks)"
  shows "stock_rawCode ` set (take n (drop i stocks)) \<inter> stock_rawCode ` set (take i stocks) = {}"
proof -
  have "distinct (map stock_rawCode (take i stocks) @ map stock_rawCode (drop i stocks))"
    using assms by (simp add: take_map [symmetric] drop_map [symmetric])
  then have "stock_rawCode ` set (take i stocks) \<inter> stock_rawCode ` set (drop i stocks) = {}"
    by simp
  moreover have "set (take n (drop i stocks)) \<subseteq> set (drop i stocks)" by (rule set_take_subset)
  ultimately show ?thesis by blast
qed

lemma batch_loop_counts:
  "truthy_messages e \<Longrightarrow> distinct (map stock_rawCode stocks) \<Longrightarrow>
   js ''__proto__'' \<notin> stock_rawCode ` set stocks \<Longrightarrow>
   fst ` set (closingPrices st) = stock_rawCode ` set (take i stocks) \<Longrightarrow>
   na_of st = length (errorMessages st) \<Longrightarrow>
   na_of (batch_loop e stocks i st) = length (errorMessages (batch_loop e stocks i st))"
proof (induction e stocks i st rule: batch_loop.induct)
  case (1 e stocks i st)
  show ?case
  proof (cases "i < length stocks")
    case False
    then have "batch_loop e stocks i st = st" by (subst batch_loop.simps) simp
    then show ?thesis using "1.prems"(5) by simp
  next
    case True
    let ?batch = "take BATCH_SIZE (drop i stocks)"
    let ?st1 = "st\<lparr>trace := trace st @ [Dispatch ?batch]\<rparr>"
    let ?st2 = "foldl (lookup_stock e (length stocks)) ?st1 ?batch"
    let ?st3 = "if i + BATCH_SIZE < length stocks
                then ?st2\<lparr>trace := trace ?st2 @ [Sleep BATCH_DELAY_MS]\<rparr> else ?st2"
    have loop: "batch_loop e stocks i st = batch_loop e stocks (i + BATCH_SIZE) ?st3"
      using True by (subst batch_loop.simps) (simp add: Let_def)
    have "map stock_rawCode ?batch = take BATCH_SIZE (drop i (map stock_rawCode stocks))"
      by (simp add: take_map drop_map)
    then have d: "distinct (map stock_rawCode ?batch)"
      using "1.prems"(2) by (simp only: distinct_take distinct_drop)
    have sub: "set ?batch \<subseteq> set stocks"
      by (meson set_take_subset set_drop_subset subset_trans)
    then have p: "js ''__proto__'' \<notin> stock_rawCode ` set ?batch"
      using "1.prems"(3) by blast
    have cp1: "closingPrices ?st1 = closingPrices st" "errorMessages ?st1 = errorMessages st"
      by simp_all
    have disj: "stock_rawCode ` set ?batch \<inter> fst ` set (closingPrices ?st1) = {}"
      unfolding cp1 "1.prems"(4) by (rule take_drop_codes [OF "1.prems"(2)])
    note b = batch_counts [OF "1.prems"(1) d p disj, of "length stocks"]
    have cp3: "closingPrices ?st3 = closingPrices ?st2" "errorMessages ?st3 = errorMessages ?st2"
      "na_of ?st3 = na_of ?st2"
      by simp_all
    have "set (take (i + BATCH_SIZE) stocks) = set (take i stocks) \<union> set ?batch"
      by (simp add: take_add)
    then have keys: "fst ` set (closingPrices ?st3) = stock_rawCode ` set (take (i + BATCH_SIZE) stocks)"
      unfolding cp3 using b cp1 "1.prems"(4) by (simp add: image_Un Un_commute)
    have "na_of ?st2 + length (errorMessages ?st1) = na_of ?st1 + length (errorMessages ?st2)"
      using b by blast
    then have na: "na_of ?st3 = length (errorMessages ?st3)"
      unfolding cp3 using "1.prems"(5) by simp
    have "na_of (batch_loop e stocks (i + BATCH_SIZE) ?st3)
        = length (errorMessages (batch_loop e stocks (i + BATCH_SIZE) ?st3))"
      by (rule "1.IH" [OF refl True refl refl refl refl "1.prems"(1,2,3) keys na])
    then show ?thesis unfolding loop .
  qed
qed

lemma counts_agree:
  assumes "truthy_messages e" "distinct (map stock_rawCode stocks)"
    "js ''__proto__'' \<notin> stock_rawCode ` set stocks"
  shows "naCount (showResults (fetchAllPrices e stocks)) = errorN (showResults (fetchAllPrices e stocks))"
proof -
  let ?st0 = "\<lparr>closingPrices = [], errorMessages = [], completed = 0,
                 trace = [Progress 0 (length stocks)]\<rparr>"
  have "na_of (batch_loop e stocks 0 ?st0) = length (errorMessages (batch_loop e stocks 0 ?st0))"
    by (rule batch_loop_counts [OF assms]) (simp_all add: na_of_def Object_values_def)
  then show ?thesis
    by (simp add: showResults_def fetchAllPrices_def Let_def na_of_def)
qed

lemma counts_agree_resolved:
  assumes "truthy_messages e"
    and "\<forall>r \<in> set rows. identifier_of codeColIdx r \<noteq> Some (js ''__proto__'')"
  shows "naCount (showResults (fetchAllPrices e (getUniqueStocks rows codeColIdx dateColIdx)))
     = errorN (showResults (fetchAllPrices e (getUniqueStocks rows codeColIdx dateColIdx)))"
proof -
  let ?stocks = "getUniqueStocks rows codeColIdx dateColIdx"
  have "js ''__proto__'' \<notin> set (map stock_rawCode ?stocks)"
    using assms(2) unfolding getUniqueStocks_set by blast
  then have "js ''__proto__'' \<notin> stock_rawCode ` set ?stocks"
    by simp
  then show ?thesis
    using counts_agree [OF assms(1) getUniqueStocks_distinct] by blast
qed

subsection \<open>Export round trip\<close>

lemma parse_plain:
  "plain s \<Longrightarrow>
   parse_loop (s @ rest) False field cur acc = parse_loop rest False (field @ s) cur acc"
proof (induction s arbitrary: field)
  case Nil
  then show ?case by simp
next
  case (Cons c s)
  then have "plain s" and c: "c \<noteq> 0x22" "c \<noteq> 0x2C" "c \<noteq> 0xD" "c \<noteq> 0xA"
    by (auto simp: plain_def)
  with Cons.IH [of "field @ [c]"] show ?case by simp
qed

lemma double_quotes_quote: "double_quotes (0x22 # val) = 0x22 # 0x22 # double_quotes val"
  by (simp add: double_quotes_def)

lemma double_quotes_other: "c \<noteq> 0x22 \<Longrightarrow> double_quotes (c # val) = c # double_quotes val"
  by (simp add: double_quotes_def)

lemma parse_quoted:
  "rest = [] \<or> hd rest \<noteq> 0x22 \<Longrightarrow>
   parse_loop (double_quotes val @ 0x22 # rest) True field cur acc
     = parse_loop rest False (field @ val) cur acc"
proof (induction val arbitrary: field)
  case Nil
  then show ?case by (cases rest) (simp_all add: double_quotes_def)
next
  case (Cons c val)
  show ?case
  proof (cases "c = 0x22")
    case True
    have "parse_loop (double_quotes (c # val) @ 0x22 # rest) True field cur acc
        = parse_loop (0x22 # 0x22 # (double_quotes val @ 0x22 # rest)) True field cur acc"
      using True by (simp add: double_quotes_quote)
    also have "\<dots> = parse_loop (double_quotes val @ 0x22 # rest) True (field @ [0x22]) cur acc"
      by simp
    also have "\<dots> = parse_loop rest False ((field @ [0x22]) @ val) cur acc"
      by (rule Cons.IH [OF Cons.prems])
    finally show ?thesis using True by simp
  next
    case False
    have "parse_loop (double_quotes (c # val) @ 0x22 # rest) True field cur acc
        = parse_loop (c # (double_quotes val @ 0x22 # rest)) True field cur acc"
      using False by (simp add: double_quotes_other)
    also have "\<dots> = parse_loop (double_quotes val @ 0x22 # rest) True (field @ [c]) cur acc"
      using False by simp
    also have "\<dots> = parse_loop rest False ((field @ [c]) @ val) cur acc"
      by (rule Cons.IH [OF Cons.prems])
    finally show ?thesis by simp
  qed
qed

lemma parse_field:
  assumes "\<not> bare_cr val" and "rest = [] \<or> hd rest \<noteq> 0x22"
  shows "parse_loop (quote_wrap val @ rest) False field cur acc
           = parse_loop rest False (field @ val) cur acc"
proof (cases "needs_quotes val")
  case True
  then have "quote_wrap val @ rest = 0x22 # double_quotes val @ 0x22 # rest"
    by (simp add: quote_wrap_def)
  then show ?thesis using parse_quoted [OF assms(2)] by simp
next
  case False
  then have "plain val" using assms(1) by (auto simp: bare_cr_def needs_quotes_def plain_def)
  then show ?thesis using False by (simp add: quote_wrap_def parse_plain)
qed

lemma parse_cells:
  assumes "cells \<noteq> []" and "\<forall>c \<in> set cells. \<not> bare_cr c" and "rest = [] \<or> hd rest \<noteq> 0x22"
  shows "parse_loop (js_join [0x2C] (map quote_wrap cells) @ rest) False [] cur acc
           = parse_loop rest False (last cells) (cur @ butlast cells) acc"
  using assms
proof (induction cells arbitrary: cur rule: induct_list012)
  case 1
  then show ?case by simp
next
  case (2 x)
  then show ?case using parse_field [of x rest "[]" cur acc] by simp
next
  case (3 x y zs)
  have "parse_loop (js_join [0x2C] (map quote_wrap (x # y # zs)) @ rest) False [] cur acc
      = parse_loop (quote_wrap x @ 0x2C # (js_join [0x2C] (map quote_wrap (y # zs)) @ rest)) False [] cur acc"
    by simp
  also have "\<dots> = parse_loop (0x2C # (js_join [0x2C] (map quote_wrap (y # zs)) @ rest)) False x cur acc"
    using parse_field [of x "0x2C # (js_join [0x2C] (map quote_wrap (y # zs)) @ rest)" "[]" cur acc] "3.prems"
    by simp
  also have "\<dots> = parse_loop (js_join [0x2C] (map quote_wrap (y # zs)) @ rest) False [] (cur @ [x]) acc"
    by simp
  also have "\<dots> = parse_loop rest False (last (y # zs)) ((cur @ [x]) @ butlast (y # zs)) acc"
    using "3.IH"(2) [of "cur @ [x]"] "3.prems" by simp
  finally show ?case by simp
qed

lemma parse_lines:
  assumes "rws \<noteq> []" and "\<forall>cells \<in> set rws. cells \<noteq> [] \<and> (\<forall>c \<in> set cells. \<not> bare_cr c)"
  shows "parse_loop (js_join [0xD, 0xA] (map (\<lambda>cells. js_join [0x2C] (map quote_wrap cells)) rws))
           False [] [] acc
         = (acc @ butlast rws, butlast (last rws), last (last rws))"
  using assms
proof (induction rws arbitrary: acc rule: induct_list012)
  case 1
  then show ?case by simp
next
  case (2 x)
  then show ?case using parse_cells [of x "[]" "[]" acc] by simp
next
  case (3 x y zs)
  let ?line = "\<lambda>cells. js_join [0x2C] (map quote_wrap cells)"
  let ?more = "js_join [0xD, 0xA] (map ?line (y # zs))"
  have x: "x \<noteq> []" "\<forall>c \<in> set x. \<not> bare_cr c" using "3.prems" by simp_all
  have "parse_loop (js_join [0xD, 0xA] (map ?line (x # y # zs))) False [] [] acc
      = parse_loop (?line x @ 0xD # 0xA # ?more) False [] [] acc"
    by simp
  also have "\<dots> = parse_loop (0xD # 0xA # ?more) False (last x) ([] @ butlast x) acc"
    using parse_cells [OF x, of "0xD # 0xA # ?more" "[]" acc] by simp
  also have "\<dots> = parse_loop ?more False [] [] (acc @ [x])"
    using x(1) by simp
  also have "\<dots> = ((acc @ [x]) @ butlast (y # zs), butlast (last (y # zs)), last (last (y # zs)))"
    using "3.IH"(2) [of "acc @ [x]"] "3.prems" by simp
  finally show ?case by simp
qed

lemma parseCSVRows_lines:
  assumes "\<forall>cells \<in> set rws. 2 \<le> length cells \<and> (\<forall>c \<in> set cells. \<not> bare_cr c)
             \<and> (\<exists>c \<in> set cells. trim c \<noteq> [])"
  shows "parseCSVRows (js_join [0xD, 0xA] (map (\<lambda>cells. js_join [0x2C] (map quote_wrap cells)) rws))
           = rws"
proof (cases "rws = []")
  case True
  then show ?thesis by (simp add: parseCSVRows_def)
next
  case False
  have ne: "\<forall>cells \<in> set rws. cells \<noteq> [] \<and> (\<forall>c \<in> set cells. \<not> bare_cr c)"
    using assms by auto
  have last2: "2 \<le> length (last rws)" using assms False by simp
  then have bl: "butlast (last rws) \<noteq> []" by (cases "last rws" rule: rev_cases) auto
  have lastne: "last rws \<noteq> []" using last2 by auto
  have keep: "filter (\<lambda>row. list_ex (\<lambda>f. trim f \<noteq> []) row) rws = rws"
    using assms by (auto simp: list_ex_iff intro!: filter_True)
  have whole: "butlast rws @ [butlast (last rws) @ [last (last rws)]] = rws"
    using False lastne by simp
  have "parseCSVRows (js_join [0xD, 0xA] (map (\<lambda>cells. js_join [0x2C] (map quote_wrap cells)) rws))
      = filter (\<lambda>row. list_ex (\<lambda>f. trim f \<noteq> []) row)
          (butlast rws @ [butlast (last rws) @ [last (last rws)]])"
    unfolding parseCSVRows_def parse_lines [OF False ne, of "[]"] using bl by simp
  then show ?thesis unfolding whole keep .
qed

lemma na_plain: "plain (js ''N/A'') \<and> trim (js ''N/A'') \<noteq> []"
  by code_simp

lemma derived_cells_plain:
  assumes "plain_formatters fmt"
  shows "\<forall>c \<in> set (derived_cells fmt priceData). plain c \<and> trim c \<noteq> []"
proof -
  have f: "plain (numToString fmt v) \<and> trim (numToString fmt v) \<noteq> []"
    "plain (toFixed2 fmt v) \<and> trim (toFixed2 fmt v) \<noteq> []" for v
    using assms by (simp_all add: plain_formatters_def)
  have ch: "plain (change_cell fmt priceData key) \<and> trim (change_cell fmt priceData key) \<noteq> []" for key
    using f na_plain by (simp add: change_cell_def Let_def)
  show ?thesis
    using f na_plain ch by (cases priceData) (simp_all add: derived_cells_def)
qed

lemma derived_cells_length: "length (derived_cells fmt priceData) = 7"
  by (simp add: derived_cells_def)

lemma plain_quote_wrap: "plain c \<Longrightarrow> quote_wrap c = c"
  by (simp add: plain_def quote_wrap_def needs_quotes_def)

lemma plain_no_bare_cr: "plain c \<Longrightarrow> \<not> bare_cr c"
  by (simp add: plain_def bare_cr_def)

lemma output_cells_wrap:
  assumes "plain_formatters fmt"
  shows "output_cells fmt closingPricesAt row = map quote_wrap (expected_cells fmt closingPricesAt row)"
proof -
  have "map quote_wrap (derived_cells fmt pd) = derived_cells fmt pd" for pd
    using derived_cells_plain [OF assms, of pd] by (simp add: map_idI plain_quote_wrap)
  then show ?thesis
    by (simp add: output_cells_def expected_cells_def export_cell_def Let_def comp_def)
qed

lemma output_data_lines:
  assumes "plain_formatters fmt"
  shows "output_data fmt closingPricesAt rows
     = js_join [0xD, 0xA] (map (\<lambda>cells. js_join [0x2C] (map quote_wrap cells))
         (map (expected_cells fmt closingPricesAt) rows))"
proof -
  have "output_line fmt closingPricesAt
      = (\<lambda>row. js_join [0x2C] (map quote_wrap (expected_cells fmt closingPricesAt row)))"
    by (rule ext) (simp add: output_line_def output_cells_wrap [OF assms])
  then show ?thesis by (simp add: output_data_def comp_def)
qed

lemma expected_cells_ok:
  assumes "plain_formatters fmt" and "\<forall>c \<in> set (take 9 row). \<not> bare_cr (trim c)"
  shows "2 \<le> length (expected_cells fmt closingPricesAt row)
     \<and> (\<forall>c \<in> set (expected_cells fmt closingPricesAt row). \<not> bare_cr c)
     \<and> (\<exists>c \<in> set (expected_cells fmt closingPricesAt row). trim c \<noteq> [])"
proof -
  let ?d = "derived_cells fmt (closingPricesAt (trim (cell_or_empty row 4)))"
  have d: "\<forall>c \<in> set ?d. plain c \<and> trim c \<noteq> []" by (rule derived_cells_plain [OF assms(1)])
  have len: "length ?d = 7" by (rule derived_cells_length)
  then have "?d \<noteq> []" by auto
  then obtain c where "c \<in> set ?d" by (cases ?d) auto
  then have "\<exists>c \<in> set (expected_cells fmt closingPricesAt row). trim c \<noteq> []"
    using d by (auto simp: expected_cells_def)
  moreover have "\<forall>c \<in> set (expected_cells fmt closingPricesAt row). \<not> bare_cr c"
    using assms(2) d by (auto simp: expected_cells_def plain_no_bare_cr)
  moreover have "2 \<le> length (expected_cells fmt closingPricesAt row)"
    using len by (simp add: expected_cells_def)
  ultimately show ?thesis by blast
qed

lemma js_join_append:
  "xs \<noteq> [] \<Longrightarrow> ys \<noteq> [] \<Longrightarrow> js_join sep (xs @ ys) = js_join sep xs @ sep @ js_join sep ys"
proof (induction xs rule: induct_list012)
  case 1
  then show ?case by simp
next
  case (2 x)
  then show ?case by (cases ys) simp_all
next
  case (3 x y zs)
  then show ?case by simp
qed

lemma generateOutputCSV_data:
  assumes "pd_rows pd \<noteq> []"
  shows "generateOutputCSV fmt closingPricesAt (Some pd)
     = js_join [0xD, 0xA] (pd_metadata pd @ [js_join [0x2C] headerLabels])
       @ [0xD, 0xA] @ output_data fmt closingPricesAt (pd_rows pd)"
  using assms
    js_join_append [of "pd_metadata pd @ [js_join [0x2C] headerLabels]"
      "map (output_line fmt closingPricesAt) (pd_rows pd)" "[0xD, 0xA]"]
  by (simp add: generateOutputCSV_def output_data_def)

text \<open>
  Claim C10, amended. For every list of data rows and every result map, writing the rows
  in the export format and parsing the text again with \<open>parseCSVRows\<close> gives, row by
  row, the trimmed values of the first nine cells followed by the seven appended cells
  (so the first \<open>min 9 (length row)\<close> cells of a parsed row are the trimmed cells of the
  row), when no trimmed cell holds a CR without also holding a comma, a quote or an LF,
  and the engine's number formatting gives non-blank text without quote, comma, CR or
  LF. The whole export is the metadata and header lines followed by those data rows.
\<close>

theorem export_roundtrip:
  "(plain_formatters fmt \<and> (\<forall>row \<in> set rows. \<forall>c \<in> set (take 9 row). \<not> bare_cr (trim c)) \<longrightarrow>
      parseCSVRows (output_data fmt closingPricesAt rows)
        = map (expected_cells fmt closingPricesAt) rows
      \<and> (\<forall>k < length rows.
            take (min 9 (length (rows ! k))) (parseCSVRows (output_data fmt closingPricesAt rows) ! k)
              = map trim (take 9 (rows ! k))))
   \<and> (pd_rows pd \<noteq> [] \<longrightarrow>
        generateOutputCSV fmt closingPricesAt (Some pd)
          = js_join [0xD, 0xA] (pd_metadata pd @ [js_join [0x2C] headerLabels])
            @ [0xD, 0xA] @ output_data fmt closingPricesAt (pd_rows pd))"
proof (intro conjI impI)
  assume a: "plain_formatters fmt \<and> (\<forall>row \<in> set rows. \<forall>c \<in> set (take 9 row). \<not> bare_cr (trim c))"
  then have "\<forall>cells \<in> set (map (expected_cells fmt closingPricesAt) rows).
      2 \<le> length cells \<and> (\<forall>c \<in> set cells. \<not> bare_cr c) \<and> (\<exists>c \<in> set cells. trim c \<noteq> [])"
    using expected_cells_ok [of fmt _ closingPricesAt] by auto
  from parseCSVRows_lines [OF this]
  show eq: "parseCSVRows (output_data fmt closingPricesAt rows) = map (expected_cells fmt closingPricesAt) rows"
    using a by (simp add: output_data_lines)
  show "\<forall>k < length rows.
      take (min 9 (length (rows ! k))) (parseCSVRows (output_data fmt closingPricesAt rows) ! k)
        = map trim (take 9 (rows ! k))"
    unfolding eq by (simp add: expected_cells_def)
next
  assume "pd_rows pd \<noteq> []"
  then show "generateOutputCSV fmt closingPricesAt (Some pd)
          = js_join [0xD, 0xA] (pd_metadata pd @ [js_join [0x2C] headerLabels])
            @ [0xD, 0xA] @ output_data fmt closingPricesAt (pd_rows pd)"
    by (rule generateOutputCSV_data)
qed

lemma zero_formatters_plain: "plain_formatters zero_formatters"
proof -
  have "plain (js ''0'') \<and> trim (js ''0'') \<noteq> [] \<and> plain (js ''0.00'') \<and> trim (js ''0.00'') \<noteq> []"
    by code_simp
  then show ?thesis by (simp add: plain_formatters_def zero_formatters_def)
qed

lemma padded_rows_no_bare_cr: "\<forall>row \<in> set padded_rows. \<forall>c \<in> set (take 9 row). \<not> bare_cr (trim c)"
  by code_simp

lemma padded_expected:
  "map (expected_cells zero_formatters no_prices) padded_rows =
     [[js ''2026/02/20'', js ''2026/02/20'', js ''2026/02/19'', [], js ''82270'', js ''A, B'',
       js ''T'', [], js ''1'', js ''N/A'', js ''N/A'', js ''N/A'', js ''N/A'', js ''N/A'',
       js ''N/A'', js ''N/A'']]"
  by code_simp

theorem export_roundtrip_witness:
  "plain_formatters zero_formatters
   \<and> \<not> bare_cr (trim (padded_rows ! 0 ! 5))
   \<and> parseCSVRows (output_data zero_formatters no_prices padded_rows) =
       [[js ''2026/02/20'', js ''2026/02/20'', js ''2026/02/19'', [], js ''82270'', js ''A, B'',
         js ''T'', [], js ''1'', js ''N/A'', js ''N/A'', js ''N/A'', js ''N/A'', js ''N/A'',
         js ''N/A'', js ''N/A'']]"
proof -
  have "\<not> bare_cr (trim (padded_rows ! 0 ! 5))"
    by code_simp
  then show ?thesis
    using export_roundtrip [of zero_formatters padded_rows no_prices]
      zero_formatters_plain padded_rows_no_bare_cr padded_expected
    by simp
qed

text \<open>
  As stated, C10 promises the original cell values back. The export writes
  \<open>c.trim()\<close>, so a cell with blanks around it, like the code cell \<open>"82270 "\<close>, comes
  back trimmed.
\<close>

theorem export_trims_cells_counterexample:
  "padded_rows ! 0 ! 4 = js ''82270 ''
   \<and> parseCSVRows (output_data zero_formatters no_prices padded_rows) ! 0 ! 4 = js ''82270''
   \<and> take 9 (parseCSVRows (output_data zero_formatters no_prices padded_rows) ! 0)
       \<noteq> take 9 (padded_rows ! 0)"
  by code_simp

text \<open>
  The case the amended claim leaves out: a CR inside a cell that nothing else forces into
  quotes is written bare, and the parser skips it.
\<close>

lemma export_loses_bare_cr:
  "cr_rows ! 0 ! 5 = [0x41, 0xD, 0x42]
   \<and> parseCSVRows (output_data zero_formatters no_prices cr_rows) ! 0 ! 5 = [0x41, 0x42]"
  by code_simp

end
